theory Spec2Isabelle
  imports Main "HOL-Library.Word" "HOL-Library.Monad_Syntax"
begin

section \<open>The HSM runtime of 101/hsm.c\<close>

text \<open>
  The runtime is C on top of GLib. The embedding keeps the structs of hsm.c as records,
  the objects they point to in explicit heaps (a machine, an event and a timeout source
  are reached through pointers, and the claims depend on which object a pointer names),
  and threads the whole program state, a \<open>world\<close>, through every function. A function
  that dereferences a pointer returns \<open>None\<close> when the pointer names no live object
  (undefined behaviour in C). The functions that can run a callback inside another take a
  bound on that nesting and return \<open>None\<close> also when the bound is used up.
\<close>

subsection \<open>GLib base types\<close>

text \<open>\<open>gint\<close> and \<open>guint\<close> are 32 bits wide; \<open>sint\<close> reads a \<open>gint\<close>. C leaves signed
  overflow undefined; the model takes the two's complement wrap-around of the hardware.\<close>

type_synonym gint = "32 word"
type_synonym guint = "32 word"

text \<open>An opaque \<open>gpointer\<close> (user data, event payload): \<open>None\<close> is \<open>NULL\<close>.\<close>

type_synonym gpointer = "nat option"

text \<open>A \<open>gchar *\<close> is \<open>None\<close> for \<open>NULL\<close>, otherwise the bytes before the terminator.\<close>

definition g_strdup :: "string option \<Rightarrow> string option" where
  "g_strdup s = (case s of None \<Rightarrow> None | Some cs \<Rightarrow> Some cs)"

fun strcmp :: "string \<Rightarrow> string \<Rightarrow> int" where
  "strcmp [] [] = 0"
| "strcmp [] (b # bs) = - 1"
| "strcmp (a # as) [] = 1"
| "strcmp (a # as) (b # bs) =
     (if a = b then strcmp as bs
      else if (of_char a :: nat) < of_char b then - 1 else 1)"

text \<open>\<open>g_strcmp0\<close> of GLib: \<open>NULL\<close> sorts before every string and equals itself.\<close>

definition g_strcmp0 :: "string option \<Rightarrow> string option \<Rightarrow> int" where
  "g_strcmp0 str1 str2 =
     (case str1 of
        None \<Rightarrow> (case str2 of None \<Rightarrow> 0 | Some _ \<Rightarrow> - 1)
      | Some a \<Rightarrow> (case str2 of None \<Rightarrow> 1 | Some b \<Rightarrow> strcmp a b))"

subsection \<open>Heaps\<close>

text \<open>A heap is the list of the cells allocated so far; a freed cell is \<open>None\<close>. The
  address of a cell is its index, \<open>g_new0\<close> appends a cell (it never returns \<open>NULL\<close>: GLib
  aborts when memory is exhausted).\<close>

type_synonym 'a heap = "'a option list"

definition heap_get :: "'a heap \<Rightarrow> nat \<Rightarrow> 'a option" where
  "heap_get H p = (if p < length H then H ! p else None)"

definition heap_new :: "'a heap \<Rightarrow> 'a \<Rightarrow> nat \<times> 'a heap" where
  "heap_new H v = (length H, H @ [Some v])"

definition heap_set :: "'a heap \<Rightarrow> nat \<Rightarrow> 'a \<Rightarrow> 'a heap" where
  "heap_set H p v = H[p := Some v]"

definition heap_free :: "'a heap \<Rightarrow> nat \<Rightarrow> 'a heap" where
  "heap_free H p = H[p := None]"

subsection \<open>Events (struct HsmEvent)\<close>

datatype HsmEventType =
    HSM_EVT_START
  | HSM_EVT_STEP
  | HSM_EVT_RESULT_OK
  | HSM_EVT_RESULT_ERROR
  | HSM_EVT_TIMEOUT
  | HSM_EVT_TIMEOUT_HANDLED
  | HSM_EVT_CANCEL
  | HSM_EVT_ENTRY
  | HSM_EVT_EXIT

text \<open>The value C gives each enumerator of hsm.h: numbered from 0 in declaration order.\<close>

fun HsmEventType_val :: "HsmEventType \<Rightarrow> int" where
  "HsmEventType_val HSM_EVT_START = 0"
| "HsmEventType_val HSM_EVT_STEP = 1"
| "HsmEventType_val HSM_EVT_RESULT_OK = 2"
| "HsmEventType_val HSM_EVT_RESULT_ERROR = 3"
| "HsmEventType_val HSM_EVT_TIMEOUT = 4"
| "HsmEventType_val HSM_EVT_TIMEOUT_HANDLED = 5"
| "HsmEventType_val HSM_EVT_CANCEL = 6"
| "HsmEventType_val HSM_EVT_ENTRY = 7"
| "HsmEventType_val HSM_EVT_EXIT = 8"

record HsmEvent =
  ev_type :: HsmEventType
  ev_name :: "string option"
  ev_source :: "string option"
  ev_seq :: gint
  ev_data :: gpointer

subsection \<open>States, machines, timers\<close>

text \<open>A handler is a C function pointer: \<open>None\<close> is \<open>NULL\<close>, \<open>Some f\<close> the address of a
  function whose behaviour the environment \<open>fn\<close> of the dispatching functions gives.\<close>

record HsmState =
  st_name :: "string option"
  st_handler :: "nat option"
  st_user_data :: gpointer

record GMainLoop =
  loop_context :: nat
  loop_is_running :: bool

text \<open>struct Hsm. \<open>h_states\<close> and \<open>h_timers\<close> are the two hash tables, \<open>h_timers\<close> keyed by
  \<open>GINT_TO_POINTER (timer_id)\<close>, which is injective on \<open>gint\<close>, and holding the address of
  the timeout source; the mutex \<open>lock\<close> has no content of its own, its use shows in the
  calls \<open>G_mutex_lock\<close> and \<open>G_mutex_unlock\<close> below.\<close>

record Hsm =
  h_name :: "string option"
  h_current_state :: "string option"
  h_context :: nat
  h_loop :: "GMainLoop option"
  h_thread :: "nat option"
  h_running :: bool
  h_parent :: "nat option"
  h_states :: "string \<rightharpoonup> HsmState"
  h_timers :: "gint \<rightharpoonup> nat"
  h_next_timer_id :: gint

text \<open>The three request structs of hsm.c, owned by the callback they are handed to.\<close>

record ChangeReq =
  r_h :: nat
  r_ns :: string

record HsmPost =
  p_h :: nat
  p_ev :: nat

record TimerCtx =
  t_h :: nat
  t_timer_id :: gint

text \<open>What \<open>g_main_context_invoke\<close> is handed: a callback of hsm.c with its data.\<close>

datatype closure =
    Hsm_process_post HsmPost
  | Hsm_change_state_invoke_cb ChangeReq

text \<open>A GLib timeout source: its interval in milliseconds, the data of its callback
  \<open>hsm_timer_source_cb\<close>, and the context it is attached to.\<close>

record GSource =
  src_interval :: guint
  src_callback :: "TimerCtx option"
  src_context :: "nat option"

text \<open>The calls into GLib whose effect lies outside the program: the world keeps them in
  the order they were made. \<open>G_main_context_invoke c k\<close> is a request that
  \<open>g_main_context_invoke\<close> could not run at once: an idle source attached to context \<open>c\<close>
  that will run the callback of \<open>k\<close> when the thread iterating \<open>c\<close> gets to it.\<close>

datatype glib_call =
    G_main_context_invoke nat closure
  | G_mutex_lock nat
  | G_mutex_unlock nat
  | G_thread_new "string option" nat
  | G_thread_join nat
  | G_main_loop_quit nat

text \<open>The program state. The last three fields are what GLib knows of threads: the thread
  that is executing (\<open>G_THREAD_SELF\<close>), the thread that has acquired each context with
  the number of times it has (a running \<open>g_main_loop_run\<close> holds its context, so every
  handler and every source callback runs on the owner of its context), and the stack of
  thread-default contexts of the executing thread (an entry is \<open>None\<close> for the global
  default context).\<close>

record world =
  hsms :: "Hsm heap"
  events :: "HsmEvent heap"
  sources :: "GSource heap"
  glib :: "glib_call list"
  n_contexts :: nat
  n_threads :: nat
  g_thread_self :: nat
  ctx_owner :: "nat \<rightharpoonup> nat \<times> nat"
  thread_default :: "nat option list"

text \<open>\<open>HsmStateHandler\<close>: machine, state name, event, user data; it returns whether the
  event was consumed. A handler is application code and may call back into the runtime,
  so it is a function of the world.\<close>

type_synonym HsmStateHandler = "nat \<Rightarrow> string \<Rightarrow> nat \<Rightarrow> gpointer \<Rightarrow> world \<Rightarrow> bool \<times> world"

text \<open>One handler invocation made by the runtime: the function called, its four
  arguments (machine, state name, event, user data), and the world it was called in.\<close>

datatype invocation = Invoke nat nat string nat gpointer world

definition G_SOURCE_REMOVE :: bool where
  "G_SOURCE_REMOVE = False"

subsection \<open>Event API\<close>

definition hsm_event_new ::
  "HsmEventType \<Rightarrow> string option \<Rightarrow> gpointer \<Rightarrow> string option \<Rightarrow> gint \<Rightarrow> world \<Rightarrow> nat \<times> world" where
  "hsm_event_new type name data source seq w =
     (let e = \<lparr>ev_type = type,
                ev_name = (case name of Some n \<Rightarrow> g_strdup (Some n) | None \<Rightarrow> None),
                ev_source = (case source of Some s \<Rightarrow> g_strdup (Some s) | None \<Rightarrow> None),
                ev_seq = seq,
                ev_data = data\<rparr>;
          (p, H) = heap_new (events w) e
      in (p, w\<lparr>events := H\<rparr>))"

definition hsm_event_free :: "nat option \<Rightarrow> world \<Rightarrow> world option" where
  "hsm_event_free ev w =
     (case ev of
        None \<Rightarrow> Some w
      | Some p \<Rightarrow>
          (case heap_get (events w) p of
             None \<Rightarrow> None
           | Some e \<Rightarrow> Some (w\<lparr>events := heap_free (events w) p\<rparr>)))"

text \<open>The accessors return \<open>Some\<close> of the C result; the enumeration is returned as the
  integer C makes of it.\<close>

definition hsm_event_get_type :: "nat option \<Rightarrow> world \<Rightarrow> int option" where
  "hsm_event_get_type ev w =
     (case ev of
        None \<Rightarrow> Some 0
      | Some p \<Rightarrow> map_option (\<lambda>e. HsmEventType_val (ev_type e)) (heap_get (events w) p))"

definition hsm_event_get_name :: "nat option \<Rightarrow> world \<Rightarrow> string option option" where
  "hsm_event_get_name ev w =
     (case ev of
        None \<Rightarrow> Some None
      | Some p \<Rightarrow> map_option ev_name (heap_get (events w) p))"

definition hsm_event_get_source :: "nat option \<Rightarrow> world \<Rightarrow> string option option" where
  "hsm_event_get_source ev w =
     (case ev of
        None \<Rightarrow> Some None
      | Some p \<Rightarrow> map_option ev_source (heap_get (events w) p))"

definition hsm_event_get_seq :: "nat option \<Rightarrow> world \<Rightarrow> gint option" where
  "hsm_event_get_seq ev w =
     (case ev of
        None \<Rightarrow> Some 0
      | Some p \<Rightarrow> map_option ev_seq (heap_get (events w) p))"

definition hsm_event_get_data :: "nat option \<Rightarrow> world \<Rightarrow> gpointer option" where
  "hsm_event_get_data ev w =
     (case ev of
        None \<Rightarrow> Some None
      | Some p \<Rightarrow> map_option ev_data (heap_get (events w) p))"

subsection \<open>GLib primitives\<close>

text \<open>The functions of GLib that hsm.c calls, as far as the runtime depends on them and as
  the GLib reference describes them. The global default context is number 0;
  \<open>g_main_context_new\<close> numbers the others from 1.\<close>

definition g_main_context_default :: nat where
  "g_main_context_default = 0"

definition g_main_context_new :: "world \<Rightarrow> nat \<times> world" where
  "g_main_context_new w = (Suc (n_contexts w), w\<lparr>n_contexts := Suc (n_contexts w)\<rparr>)"

definition g_mutex_lock :: "nat \<Rightarrow> world \<Rightarrow> world" where
  "g_mutex_lock hp w = w\<lparr>glib := glib w @ [G_mutex_lock hp]\<rparr>"

definition g_mutex_unlock :: "nat \<Rightarrow> world \<Rightarrow> world" where
  "g_mutex_unlock hp w = w\<lparr>glib := glib w @ [G_mutex_unlock hp]\<rparr>"

text \<open>Thread-default contexts: pushing the global default context pushes \<open>NULL\<close>, and
  \<open>g_main_context_get_thread_default\<close> returns the top of the stack, \<open>NULL\<close> when the
  stack is empty.\<close>

definition g_main_context_push_thread_default :: "nat \<Rightarrow> world \<Rightarrow> world" where
  "g_main_context_push_thread_default c w =
     w\<lparr>thread_default :=
          (if c = g_main_context_default then None else Some c) # thread_default w\<rparr>"

definition g_main_context_pop_thread_default :: "nat \<Rightarrow> world \<Rightarrow> world" where
  "g_main_context_pop_thread_default c w = w\<lparr>thread_default := tl (thread_default w)\<rparr>"

definition g_main_context_get_thread_default :: "world \<Rightarrow> nat option" where
  "g_main_context_get_thread_default w =
     (case thread_default w of [] \<Rightarrow> None | d # ds \<Rightarrow> d)"

text \<open>Ownership of a context: \<open>g_main_context_acquire\<close> succeeds when no other thread
  holds the context, \<open>g_main_context_release\<close> gives up one acquisition.\<close>

definition g_main_context_is_owner :: "nat \<Rightarrow> world \<Rightarrow> bool" where
  "g_main_context_is_owner c w =
     (case ctx_owner w c of None \<Rightarrow> False | Some (t, k) \<Rightarrow> t = g_thread_self w)"

definition g_main_context_acquire :: "nat \<Rightarrow> world \<Rightarrow> bool \<times> world" where
  "g_main_context_acquire c w =
     (case ctx_owner w c of
        None \<Rightarrow> (True, w\<lparr>ctx_owner := (ctx_owner w)(c \<mapsto> (g_thread_self w, 1))\<rparr>)
      | Some (t, k) \<Rightarrow>
          if t = g_thread_self w
          then (True, w\<lparr>ctx_owner := (ctx_owner w)(c \<mapsto> (t, Suc k))\<rparr>)
          else (False, w))"

definition g_main_context_release :: "nat \<Rightarrow> world \<Rightarrow> world" where
  "g_main_context_release c w =
     (case ctx_owner w c of
        None \<Rightarrow> w
      | Some (t, k) \<Rightarrow>
          if k \<le> 1 then w\<lparr>ctx_owner := (ctx_owner w)(c := None)\<rparr>
          else w\<lparr>ctx_owner := (ctx_owner w)(c \<mapsto> (t, k - 1))\<rparr>)"

text \<open>\<open>g_main_context_invoke (context, function, data)\<close>, after gmain.c. When the calling
  thread owns the context, or the context is the thread-default context of the calling
  thread (the global default context for a thread that has none) and can be acquired,
  the function is called directly, before \<open>g_main_context_invoke\<close> returns, and again
  as long as it returns \<open>TRUE\<close> (\<open>while (function (data));\<close>). Otherwise the request is
  left on the context as an idle source. \<open>function\<close> gives the behaviour of the callback
  of a request; the result lists, besides the world, the handler invocations made by the
  calls that were run directly. The loop is bounded by \<open>n\<close>: \<open>None\<close> when it has not
  ended after \<open>n\<close> calls.\<close>

primrec g_invoke_loop ::
  "(closure \<Rightarrow> world \<Rightarrow> (bool \<times> world \<times> invocation list) option) \<Rightarrow> nat \<Rightarrow> closure \<Rightarrow> world
     \<Rightarrow> (world \<times> invocation list) option" where
  "g_invoke_loop function 0 k w = None"
| "g_invoke_loop function (Suc n) k w = do {
     (again, w1, calls) \<leftarrow> function k w;
     if again then do {
       (w2, calls2) \<leftarrow> g_invoke_loop function n k w1;
       Some (w2, calls @ calls2)
     }
     else Some (w1, calls)
   }"

definition g_idle_attach :: "nat \<Rightarrow> closure \<Rightarrow> world \<Rightarrow> world" where
  "g_idle_attach c k w = w\<lparr>glib := glib w @ [G_main_context_invoke c k]\<rparr>"

definition g_main_context_invoke ::
  "(closure \<Rightarrow> world \<Rightarrow> (bool \<times> world \<times> invocation list) option) \<Rightarrow> nat \<Rightarrow> nat \<Rightarrow> closure
     \<Rightarrow> world \<Rightarrow> (world \<times> invocation list) option" where
  "g_main_context_invoke function n c k w =
     (if g_main_context_is_owner c w then g_invoke_loop function n k w
      else
        (let thread_default = (case g_main_context_get_thread_default w of
                                 None \<Rightarrow> g_main_context_default
                               | Some d \<Rightarrow> d)
         in if thread_default = c
            then (case g_main_context_acquire c w of
                    (True, w1) \<Rightarrow> do {
                      (w2, calls) \<leftarrow> g_invoke_loop function n k w1;
                      Some (g_main_context_release c w2, calls)
                    }
                  | (False, w1) \<Rightarrow> Some (g_idle_attach c k w1, []))
            else Some (g_idle_attach c k w, [])))"

text \<open>Timeout sources. A new source is unattached and has no callback; destroying a
  source takes it off its context and, the context's reference being the last one
  (hsm.c drops its own right after attaching), frees it.\<close>

definition g_timeout_source_new :: "guint \<Rightarrow> world \<Rightarrow> nat \<times> world" where
  "g_timeout_source_new ms w =
     (let (p, H) = heap_new (sources w)
                     \<lparr>src_interval = ms, src_callback = None, src_context = None\<rparr>
      in (p, w\<lparr>sources := H\<rparr>))"

definition g_source_set_callback :: "nat \<Rightarrow> TimerCtx \<Rightarrow> world \<Rightarrow> world option" where
  "g_source_set_callback src t w = do {
     s \<leftarrow> heap_get (sources w) src;
     Some (w\<lparr>sources := heap_set (sources w) src (s\<lparr>src_callback := Some t\<rparr>)\<rparr>)
   }"

definition g_source_attach :: "nat \<Rightarrow> nat \<Rightarrow> world \<Rightarrow> world option" where
  "g_source_attach src c w = do {
     s \<leftarrow> heap_get (sources w) src;
     Some (w\<lparr>sources := heap_set (sources w) src (s\<lparr>src_context := Some c\<rparr>)\<rparr>)
   }"

definition g_source_destroy :: "nat \<Rightarrow> world \<Rightarrow> world option" where
  "g_source_destroy src w = do {
     s \<leftarrow> heap_get (sources w) src;
     Some (w\<lparr>sources := heap_free (sources w) src\<rparr>)
   }"

subsection \<open>Machine lifecycle and hierarchy\<close>

text \<open>A store through a machine pointer.\<close>

definition hsm_put :: "nat \<Rightarrow> Hsm \<Rightarrow> world \<Rightarrow> world" where
  "hsm_put hp h w = w\<lparr>hsms := heap_set (hsms w) hp h\<rparr>"

definition hsm_state_new :: "string option \<Rightarrow> nat option \<Rightarrow> gpointer \<Rightarrow> HsmState" where
  "hsm_state_new name handler user_data =
     \<lparr>st_name = g_strdup name, st_handler = handler, st_user_data = user_data\<rparr>"

definition hsm_new :: "string option \<Rightarrow> bool \<Rightarrow> world \<Rightarrow> nat \<times> world" where
  "hsm_new name use_own_context w =
     (let (c, w1) = (if use_own_context then g_main_context_new w
                     else (g_main_context_default, w));
          h = \<lparr>h_name = g_strdup name,
                h_current_state = None,
                h_context = c,
                h_loop = Some \<lparr>loop_context = c, loop_is_running = False\<rparr>,
                h_thread = None,
                h_running = False,
                h_parent = None,
                h_states = Map.empty,
                h_timers = Map.empty,
                h_next_timer_id = 1\<rparr>;
          (p, H) = heap_new (hsms w1) h
      in (p, w1\<lparr>hsms := H\<rparr>))"

definition hsm_set_parent :: "nat option \<Rightarrow> nat option \<Rightarrow> world \<Rightarrow> world option" where
  "hsm_set_parent h parent w =
     (case h of
        None \<Rightarrow> Some w
      | Some hp \<Rightarrow> do {
          m \<leftarrow> heap_get (hsms w) hp;
          Some (hsm_put hp (m\<lparr>h_parent := parent\<rparr>) w)
        })"

definition hsm_get_parent :: "nat option \<Rightarrow> world \<Rightarrow> nat option option" where
  "hsm_get_parent h w =
     (case h of
        None \<Rightarrow> Some None
      | Some hp \<Rightarrow> map_option h_parent (heap_get (hsms w) hp))"

definition hsm_get_name :: "nat option \<Rightarrow> world \<Rightarrow> string option option" where
  "hsm_get_name h w =
     (case h of
        None \<Rightarrow> Some None
      | Some hp \<Rightarrow> map_option h_name (heap_get (hsms w) hp))"

subsection \<open>States and transitions\<close>

text \<open>\<open>g_hash_table_insert\<close> replaces the entry of a key that is already present.\<close>

definition hsm_register_state ::
  "nat option \<Rightarrow> string option \<Rightarrow> nat option \<Rightarrow> gpointer \<Rightarrow> world \<Rightarrow> world option" where
  "hsm_register_state h state_name handler user_data w =
     (case h of
        None \<Rightarrow> Some w
      | Some hp \<Rightarrow>
          (case state_name of
             None \<Rightarrow> Some w
           | Some n \<Rightarrow> do {
               m \<leftarrow> heap_get (hsms w) hp;
               let s = hsm_state_new (Some n) handler user_data;
               Some (hsm_put hp (m\<lparr>h_states := (h_states m)(n \<mapsto> s)\<rparr>) w)
             }))"

text \<open>\<open>hsm_change_state_internal\<close>. The second component of the result lists the handler
  invocations this activation made, in order. Both callers pass a non-null \<open>new_state\<close>.
  After the store \<open>h->current_state = g_strdup (new_state)\<close> the lookup reads the field
  back; a null key would be dereferenced by \<open>g_str_hash\<close>.\<close>

definition hsm_change_state_internal ::
  "(nat \<Rightarrow> HsmStateHandler) \<Rightarrow> nat \<Rightarrow> string \<Rightarrow> world \<Rightarrow> (world \<times> invocation list) option" where
  "hsm_change_state_internal fn hp new_state w = do {
     h \<leftarrow> heap_get (hsms w) hp;
     if g_strcmp0 (h_current_state h) (Some new_state) = 0 then Some (w, [])
     else do {
       (w1, exits) \<leftarrow>
         (case h_current_state h of
            None \<Rightarrow> Some (w, [])
          | Some cs \<Rightarrow>
              (case h_states h cs of
                 None \<Rightarrow> Some (w, [])
               | Some old \<Rightarrow>
                   (case st_handler old of
                      None \<Rightarrow> Some (w, [])
                    | Some f \<Rightarrow> do {
                        let (ev, wa) = hsm_event_new HSM_EVT_EXIT None None (h_name h) 0 w;
                        let (r, wb) = fn f hp cs ev (st_user_data old) wa;
                        wc \<leftarrow> hsm_event_free (Some ev) wb;
                        Some (wc, [Invoke f hp cs ev (st_user_data old) wa])
                      })));
       h1 \<leftarrow> heap_get (hsms w1) hp;
       let h2 = h1\<lparr>h_current_state := g_strdup (Some new_state)\<rparr>;
       let w2 = hsm_put hp h2 w1;
       (case h_current_state h2 of
          None \<Rightarrow> None
        | Some cs2 \<Rightarrow>
            (case h_states h2 cs2 of
               None \<Rightarrow> Some (w2, exits)
             | Some newst \<Rightarrow>
                 (case st_handler newst of
                    None \<Rightarrow> Some (w2, exits)
                  | Some f \<Rightarrow> do {
                      let (ev, wa) = hsm_event_new HSM_EVT_ENTRY None None (h_name h2) 0 w2;
                      let (r, wb) = fn f hp cs2 ev (st_user_data newst) wa;
                      wc \<leftarrow> hsm_event_free (Some ev) wb;
                      Some (wc, exits @ [Invoke f hp cs2 ev (st_user_data newst) wa])
                    })))
     }
   }"

definition hsm_change_state_invoke_cb ::
  "(nat \<Rightarrow> HsmStateHandler) \<Rightarrow> ChangeReq \<Rightarrow> world \<Rightarrow> (bool \<times> world \<times> invocation list) option" where
  "hsm_change_state_invoke_cb fn r w = do {
     (w1, calls) \<leftarrow> hsm_change_state_internal fn (r_h r) (r_ns r) w;
     Some (G_SOURCE_REMOVE, w1, calls)
   }"

subsection \<open>Event loop\<close>

text \<open>\<open>g_main_loop_run\<close> blocks and dispatches whatever the context holds until the loop is
  quit: what the world is when it returns is GLib's scheduling, a parameter here (it is
  given the machine whose loop runs).\<close>

definition hsm_thread_func :: "(nat \<Rightarrow> world \<Rightarrow> world) \<Rightarrow> nat \<Rightarrow> world \<Rightarrow> world option" where
  "hsm_thread_func g_main_loop_run hp w = do {
     h \<leftarrow> heap_get (hsms w) hp;
     let w1 = g_main_context_push_thread_default (h_context h) w;
     let w2 = hsm_put hp (h\<lparr>h_running := True\<rparr>) w1;
     let w3 = g_main_loop_run hp w2;
     h3 \<leftarrow> heap_get (hsms w3) hp;
     let w4 = hsm_put hp (h3\<lparr>h_running := False\<rparr>) w3;
     Some (g_main_context_pop_thread_default (h_context h3) w4)
   }"

text \<open>\<open>g_thread_new\<close> starts \<open>hsm_thread_func\<close> on a thread of its own; the model keeps
  the call and numbers the thread.\<close>

definition hsm_start :: "nat option \<Rightarrow> bool \<Rightarrow> world \<Rightarrow> world option" where
  "hsm_start h run_in_thread w =
     (case h of
        None \<Rightarrow> Some w
      | Some hp \<Rightarrow> do {
          m \<leftarrow> heap_get (hsms w) hp;
          if run_in_thread then
            (case h_thread m of
               None \<Rightarrow>
                 Some (hsm_put hp (m\<lparr>h_thread := Some (n_threads w)\<rparr>)
                        (w\<lparr>glib := glib w @ [G_thread_new (h_name m) hp],
                           n_threads := Suc (n_threads w)\<rparr>))
             | Some t \<Rightarrow> Some w)
          else Some w
        })"

definition hsm_run :: "(nat \<Rightarrow> world \<Rightarrow> world) \<Rightarrow> nat option \<Rightarrow> world \<Rightarrow> world option" where
  "hsm_run g_main_loop_run h w =
     (case h of
        None \<Rightarrow> Some w
      | Some hp \<Rightarrow> do {
          m \<leftarrow> heap_get (hsms w) hp;
          let w1 = g_main_context_push_thread_default (h_context m) w;
          let w2 = hsm_put hp (m\<lparr>h_running := True\<rparr>) w1;
          let w3 = g_main_loop_run hp w2;
          m3 \<leftarrow> heap_get (hsms w3) hp;
          let w4 = hsm_put hp (m3\<lparr>h_running := False\<rparr>) w3;
          Some (g_main_context_pop_thread_default (h_context m3) w4)
        })"

definition hsm_stop :: "nat option \<Rightarrow> world \<Rightarrow> world option" where
  "hsm_stop h w =
     (case h of
        None \<Rightarrow> Some w
      | Some hp \<Rightarrow> do {
          m \<leftarrow> heap_get (hsms w) hp;
          (case h_loop m of
             None \<Rightarrow> Some w
           | Some l \<Rightarrow>
               if loop_is_running l
               then Some (hsm_put hp (m\<lparr>h_loop := Some (l\<lparr>loop_is_running := False\<rparr>)\<rparr>)
                            (w\<lparr>glib := glib w @ [G_main_loop_quit hp]\<rparr>))
               else Some w)
        })"

text \<open>\<open>hsm_destroy\<close> (it stops the loop first, so it is placed here). The two tables go with the machine; the timer table was created
  without a destroy function for its values, so the sources it names stay attached.\<close>

definition hsm_destroy :: "nat option \<Rightarrow> world \<Rightarrow> world option" where
  "hsm_destroy h w =
     (case h of
        None \<Rightarrow> Some w
      | Some hp \<Rightarrow> do {
          w1 \<leftarrow> hsm_stop (Some hp) w;
          m \<leftarrow> heap_get (hsms w1) hp;
          let w2 = (case h_thread m of
                      None \<Rightarrow> w1
                    | Some t \<Rightarrow> w1\<lparr>glib := glib w1 @ [G_thread_join t]\<rparr>);
          Some (w2\<lparr>hsms := heap_free (hsms w2) hp\<rparr>)
        })"

subsection \<open>Event dispatch\<close>

text \<open>The two callbacks that hsm.c hands to \<open>g_main_context_invoke\<close>, by the request they
  are handed with; \<open>process_post\<close> is the behaviour of \<open>hsm_process_post\<close>.\<close>

definition hsm_callback ::
  "(nat \<Rightarrow> HsmStateHandler) \<Rightarrow> (HsmPost \<Rightarrow> world \<Rightarrow> (bool \<times> world \<times> invocation list) option)
     \<Rightarrow> closure \<Rightarrow> world \<Rightarrow> (bool \<times> world \<times> invocation list) option" where
  "hsm_callback fn process_post k w =
     (case k of
        Hsm_process_post p \<Rightarrow> process_post p w
      | Hsm_change_state_invoke_cb r \<Rightarrow> hsm_change_state_invoke_cb fn r w)"

text \<open>\<open>hsm_process_post\<close>: the result is the \<open>gboolean\<close> returned to GLib, the world, and
  the handler invocations made, its own first and then those of the dispatch to the
  parent when \<open>g_main_context_invoke\<close> runs that one directly. Where every machine up
  the parent chain is on a context the thread owns and declines the event, each dispatch
  runs inside the one below it, without end if the chain is a cycle: the first argument
  after \<open>fn\<close> bounds the depth of this nesting, and the result is \<open>None\<close> when the bound
  is used up.\<close>

primrec hsm_process_post ::
  "(nat \<Rightarrow> HsmStateHandler) \<Rightarrow> nat \<Rightarrow> HsmPost \<Rightarrow> world
     \<Rightarrow> (bool \<times> world \<times> invocation list) option" where
  "hsm_process_post fn 0 p w = None"
| "hsm_process_post fn (Suc n) p w = do {
     let hp = p_h p;
     let ev = p_ev p;
     h \<leftarrow> heap_get (hsms w) hp;
     let st = (case h_current_state h of
                 None \<Rightarrow> None
               | Some cs \<Rightarrow> map_option (\<lambda>s. (cs, s)) (h_states h cs));
     let (handled, w1, calls) =
       (case st of
          None \<Rightarrow> (False, w, [])
        | Some (cs, s) \<Rightarrow>
            (case st_handler s of
               None \<Rightarrow> (False, w, [])
             | Some f \<Rightarrow>
                 (let (r, wa) = fn f hp cs ev (st_user_data s) w
                  in (r, wa, [Invoke f hp cs ev (st_user_data s) w]))));
     h1 \<leftarrow> heap_get (hsms w1) hp;
     (w2, nested) \<leftarrow>
       (case (if handled then None else h_parent h1) of
          Some pp \<Rightarrow> do {
            e \<leftarrow> heap_get (events w1) ev;
            let (copy, wa) = hsm_event_new (ev_type e) (ev_name e) (ev_data e)
                               (ev_source e) (ev_seq e) w1;
            pm \<leftarrow> heap_get (hsms wa) pp;
            (wb, nested) \<leftarrow> g_main_context_invoke (hsm_callback fn (hsm_process_post fn n)) n
                              (h_context pm) (Hsm_process_post \<lparr>p_h = pp, p_ev = copy\<rparr>) wa;
            wc \<leftarrow> hsm_event_free (Some ev) wb;
            Some (wc, nested)
          }
        | None \<Rightarrow> do {
            wc \<leftarrow> hsm_event_free (Some ev) w1;
            Some (wc, [])
          });
     Some (G_SOURCE_REMOVE, w2, calls @ nested)
   }"

definition hsm_post_event ::
  "(nat \<Rightarrow> HsmStateHandler) \<Rightarrow> nat \<Rightarrow> nat option \<Rightarrow> nat option \<Rightarrow> world
     \<Rightarrow> (world \<times> invocation list) option" where
  "hsm_post_event fn n h ev w =
     (case h of
        None \<Rightarrow> Some (w, [])
      | Some hp \<Rightarrow>
          (case ev of
             None \<Rightarrow> Some (w, [])
           | Some e \<Rightarrow> do {
               m \<leftarrow> heap_get (hsms w) hp;
               g_main_context_invoke (hsm_callback fn (hsm_process_post fn n)) n
                 (h_context m) (Hsm_process_post \<lparr>p_h = hp, p_ev = e\<rparr>) w
             }))"

subsection \<open>Requesting a transition\<close>

text \<open>\<open>hsm_change_state\<close> and \<open>hsm_post_change_state\<close> (they stand before the event loop in
  hsm.c; here they need the callbacks that \<open>g_main_context_invoke\<close> may run). \<open>n\<close> is the
  bound handed on to \<open>g_main_context_invoke\<close>.\<close>

definition hsm_change_state ::
  "(nat \<Rightarrow> HsmStateHandler) \<Rightarrow> nat \<Rightarrow> nat option \<Rightarrow> string option \<Rightarrow> world
     \<Rightarrow> (world \<times> invocation list) option" where
  "hsm_change_state fn n h new_state w =
     (case h of
        None \<Rightarrow> Some (w, [])
      | Some hp \<Rightarrow>
          (case new_state of
             None \<Rightarrow> Some (w, [])
           | Some ns \<Rightarrow> do {
               m \<leftarrow> heap_get (hsms w) hp;
               if g_main_context_get_thread_default w = Some (h_context m)
               then hsm_change_state_internal fn hp ns w
               else g_main_context_invoke (hsm_callback fn (hsm_process_post fn n)) n
                      (h_context m) (Hsm_change_state_invoke_cb \<lparr>r_h = hp, r_ns = ns\<rparr>) w
             }))"

definition hsm_post_change_state ::
  "(nat \<Rightarrow> HsmStateHandler) \<Rightarrow> nat \<Rightarrow> nat option \<Rightarrow> string option \<Rightarrow> world
     \<Rightarrow> (world \<times> invocation list) option" where
  "hsm_post_change_state fn n h new_state w = hsm_change_state fn n h new_state w"

subsection \<open>Timers\<close>

text \<open>\<open>hsm_timer_source_cb\<close> posts the event first and removes the entry of the timer
  after \<open>hsm_post_event\<close> has returned.\<close>

definition hsm_timer_source_cb ::
  "(nat \<Rightarrow> HsmStateHandler) \<Rightarrow> nat \<Rightarrow> TimerCtx \<Rightarrow> world
     \<Rightarrow> (bool \<times> world \<times> invocation list) option" where
  "hsm_timer_source_cb fn n t w = do {
     m \<leftarrow> heap_get (hsms w) (t_h t);
     let (ev, w1) = hsm_event_new HSM_EVT_TIMEOUT (Some ''TIMER_EXPIRED'') None (h_name m)
                      (t_timer_id t) w;
     (w2, calls) \<leftarrow> hsm_post_event fn n (Some (t_h t)) (Some ev) w1;
     m2 \<leftarrow> heap_get (hsms w2) (t_h t);
     let w3 = hsm_put (t_h t) (m2\<lparr>h_timers := (h_timers m2)(t_timer_id t := None)\<rparr>) w2;
     Some (G_SOURCE_REMOVE, w3, calls)
   }"

definition hsm_schedule_timer :: "nat option \<Rightarrow> guint \<Rightarrow> world \<Rightarrow> (gint \<times> world) option" where
  "hsm_schedule_timer h ms w =
     (case h of
        None \<Rightarrow> Some (- 1, w)
      | Some hp \<Rightarrow> do {
          m \<leftarrow> heap_get (hsms w) hp;
          let tid = h_next_timer_id m + 1;
          let w1 = hsm_put hp (m\<lparr>h_next_timer_id := tid\<rparr>) w;
          let t = \<lparr>t_h = hp, t_timer_id = tid\<rparr>;
          let (src, w2) = g_timeout_source_new ms w1;
          w3 \<leftarrow> g_source_set_callback src t w2;
          m3 \<leftarrow> heap_get (hsms w3) hp;
          w4 \<leftarrow> g_source_attach src (h_context m3) w3;
          m4 \<leftarrow> heap_get (hsms w4) hp;
          let w5 = hsm_put hp (m4\<lparr>h_timers := (h_timers m4)(tid \<mapsto> src)\<rparr>) w4;
          Some (tid, w5)
        })"

definition hsm_cancel_timer :: "nat option \<Rightarrow> gint \<Rightarrow> world \<Rightarrow> (bool \<times> world) option" where
  "hsm_cancel_timer h timer_id w =
     (case h of
        None \<Rightarrow> Some (False, w)
      | Some hp \<Rightarrow> do {
          m \<leftarrow> heap_get (hsms w) hp;
          (case h_timers m timer_id of
             None \<Rightarrow> Some (False, w)
           | Some src \<Rightarrow> do {
               w1 \<leftarrow> g_source_destroy src w;
               m1 \<leftarrow> heap_get (hsms w1) hp;
               Some (True, hsm_put hp (m1\<lparr>h_timers := (h_timers m1)(timer_id := None)\<rparr>) w1)
             })
        })"

text \<open>GLib dispatching a timeout source that has come due. Sources are dispatched by the
  thread that iterates their context, which owns it; GLib calls the source's callback
  with its data and, when the callback returns \<open>G_SOURCE_REMOVE\<close>, destroys the source
  unless the callback has done so. A source that was destroyed is not dispatched.\<close>

definition g_timeout_dispatch ::
  "(nat \<Rightarrow> HsmStateHandler) \<Rightarrow> nat \<Rightarrow> nat \<Rightarrow> world \<Rightarrow> (world \<times> invocation list) option" where
  "g_timeout_dispatch fn n src w = do {
     s \<leftarrow> heap_get (sources w) src;
     c \<leftarrow> src_context s;
     t \<leftarrow> src_callback s;
     if g_main_context_is_owner c w then do {
       (again, w1, calls) \<leftarrow> hsm_timer_source_cb fn n t w;
       if again then Some (w1, calls)
       else (case heap_get (sources w1) src of
               None \<Rightarrow> Some (w1, calls)
             | Some s1 \<Rightarrow> do { w2 \<leftarrow> g_source_destroy src w1; Some (w2, calls) })
     }
     else None
   }"

subsection \<open>State query\<close>

definition hsm_get_state_copy :: "nat option \<Rightarrow> world \<Rightarrow> (string \<times> world) option" where
  "hsm_get_state_copy h w =
     (case h of
        None \<Rightarrow> Some ('''', w)
      | Some hp \<Rightarrow> do {
          let w1 = g_mutex_lock hp w;
          m \<leftarrow> heap_get (hsms w1) hp;
          let c = (case h_current_state m of Some cs \<Rightarrow> cs | None \<Rightarrow> '''');
          let w2 = g_mutex_unlock hp w1;
          Some (c, w2)
        })"

subsection \<open>Vocabulary of the properties\<close>

text \<open>The handler the current state of a machine resolves to: the state name, the
  function and its user data; \<open>None\<close> when the machine has no current state, the state is
  not registered, or it is registered with a null handler.\<close>

definition resolve :: "Hsm \<Rightarrow> (string \<times> nat \<times> gpointer) option" where
  "resolve h =
     (case h_current_state h of
        None \<Rightarrow> None
      | Some cs \<Rightarrow>
          (case h_states h cs of
             None \<Rightarrow> None
           | Some st \<Rightarrow>
               (case st_handler st of
                  None \<Rightarrow> None
                | Some f \<Rightarrow> Some (cs, f, st_user_data st))))"

text \<open>The shape of a synthesized event: no name, no data, sequence number 0.\<close>

definition synthesized :: "HsmEventType \<Rightarrow> string option \<Rightarrow> HsmEvent" where
  "synthesized kind source =
     \<lparr>ev_type = kind, ev_name = None, ev_source = source, ev_seq = 0, ev_data = None\<rparr>"

text \<open>The handler contract of the runtime: a handler borrows the event it is given and
  does not destroy the machine it runs on.\<close>

definition handlers_borrow :: "(nat \<Rightarrow> HsmStateHandler) \<Rightarrow> bool" where
  "handlers_borrow fn =
     (\<forall>f hp s ev ud w.
        (heap_get (hsms w) hp \<noteq> None \<longrightarrow> heap_get (hsms (snd (fn f hp s ev ud w))) hp \<noteq> None)
        \<and> (heap_get (events w) ev \<noteq> None
             \<longrightarrow> heap_get (events (snd (fn f hp s ev ud w))) ev \<noteq> None))"

text \<open>The steps of \<open>hsm_change_state_internal\<close> and of \<open>hsm_process_post\<close>, named so that
  the properties can speak of them one at a time; \<open>change_state_internal_steps\<close> and
  \<open>process_post_steps\<close> below show that the two functions are made of them. The exit step
  works on the machine as it was found, the entry step on the machine as committed, and
  the bubbling step on the parent pointer read after the handler returned (\<open>None\<close> when
  the event was handled).\<close>

definition exit_step ::
  "(nat \<Rightarrow> HsmStateHandler) \<Rightarrow> nat \<Rightarrow> Hsm \<Rightarrow> world \<Rightarrow> (world \<times> invocation list) option" where
  "exit_step fn hp h w =
     (case h_current_state h of
        None \<Rightarrow> Some (w, [])
      | Some cs \<Rightarrow>
          (case h_states h cs of
             None \<Rightarrow> Some (w, [])
           | Some old \<Rightarrow>
               (case st_handler old of
                  None \<Rightarrow> Some (w, [])
                | Some f \<Rightarrow> do {
                    let (ev, wa) = hsm_event_new HSM_EVT_EXIT None None (h_name h) 0 w;
                    let (r, wb) = fn f hp cs ev (st_user_data old) wa;
                    wc \<leftarrow> hsm_event_free (Some ev) wb;
                    Some (wc, [Invoke f hp cs ev (st_user_data old) wa])
                  })))"

definition entry_step ::
  "(nat \<Rightarrow> HsmStateHandler) \<Rightarrow> nat \<Rightarrow> Hsm \<Rightarrow> invocation list \<Rightarrow> world
     \<Rightarrow> (world \<times> invocation list) option" where
  "entry_step fn hp h2 exits w2 =
     (case h_current_state h2 of
        None \<Rightarrow> None
      | Some cs2 \<Rightarrow>
          (case h_states h2 cs2 of
             None \<Rightarrow> Some (w2, exits)
           | Some newst \<Rightarrow>
               (case st_handler newst of
                  None \<Rightarrow> Some (w2, exits)
                | Some f \<Rightarrow> do {
                    let (ev, wa) = hsm_event_new HSM_EVT_ENTRY None None (h_name h2) 0 w2;
                    let (r, wb) = fn f hp cs2 ev (st_user_data newst) wa;
                    wc \<leftarrow> hsm_event_free (Some ev) wb;
                    Some (wc, exits @ [Invoke f hp cs2 ev (st_user_data newst) wa])
                  })))"

definition bubble_step ::
  "(nat \<Rightarrow> closure \<Rightarrow> world \<Rightarrow> (world \<times> invocation list) option) \<Rightarrow> nat \<Rightarrow> nat option \<Rightarrow> world
     \<Rightarrow> (world \<times> invocation list) option" where
  "bubble_step invoke ev parent w1 =
     (case parent of
        Some pp \<Rightarrow> do {
          e \<leftarrow> heap_get (events w1) ev;
          let (copy, wa) = hsm_event_new (ev_type e) (ev_name e) (ev_data e)
                             (ev_source e) (ev_seq e) w1;
          pm \<leftarrow> heap_get (hsms wa) pp;
          (wb, nested) \<leftarrow> invoke (h_context pm) (Hsm_process_post \<lparr>p_h = pp, p_ev = copy\<rparr>) wa;
          wc \<leftarrow> hsm_event_free (Some ev) wb;
          Some (wc, nested)
        }
      | None \<Rightarrow> do {
          wc \<leftarrow> hsm_event_free (Some ev) w1;
          Some (wc, [])
        })"

text \<open>How \<open>g_main_context_invoke\<close> treats a request for context \<open>c\<close> made in world \<open>w\<close>:
  whether it runs the callback at once, the world it runs it in (with \<open>c\<close> acquired
  where the thread did not own it), and what it makes of the world \<open>w2\<close> the callback
  left (with \<open>c\<close> released again where it was acquired).\<close>

definition g_runs_at_once :: "nat \<Rightarrow> world \<Rightarrow> bool" where
  "g_runs_at_once c w =
     (g_main_context_is_owner c w
      \<or> ((case g_main_context_get_thread_default w of
             None \<Rightarrow> g_main_context_default
           | Some d \<Rightarrow> d) = c
         \<and> ctx_owner w c = None))"

definition g_enter :: "nat \<Rightarrow> world \<Rightarrow> world" where
  "g_enter c w = (if g_main_context_is_owner c w then w else snd (g_main_context_acquire c w))"

definition g_leave :: "nat \<Rightarrow> world \<Rightarrow> world \<Rightarrow> world" where
  "g_leave c w w2 = (if g_main_context_is_owner c w then w2 else g_main_context_release c w2)"

text \<open>A handler that leaves the registry entry of state \<open>X\<close> of machine \<open>hp\<close> as it is.\<close>

definition handlers_keep_state :: "(nat \<Rightarrow> HsmStateHandler) \<Rightarrow> nat \<Rightarrow> string \<Rightarrow> bool" where
  "handlers_keep_state fn hp X =
     (\<forall>f s ev ud w m. heap_get (hsms w) hp = Some m \<longrightarrow>
        (\<exists>m'. heap_get (hsms (snd (fn f hp s ev ud w))) hp = Some m'
            \<and> h_states m' X = h_states m X))"

subsection \<open>Successive timers\<close>

text \<open>A caller that schedules \<open>n\<close> timers of \<open>ms\<close> milliseconds on machine \<open>hp\<close>, one call
  of \<open>hsm_schedule_timer\<close> after the other, and keeps the ids in the order returned.\<close>

primrec hsm_schedule_timers ::
  "nat \<Rightarrow> nat \<Rightarrow> guint \<Rightarrow> world \<Rightarrow> (gint list \<times> world) option" where
  "hsm_schedule_timers 0 hp ms w = Some ([], w)"
| "hsm_schedule_timers (Suc n) hp ms w = do {
     (tid, w1) \<leftarrow> hsm_schedule_timer (Some hp) ms w;
     (tids, w2) \<leftarrow> hsm_schedule_timers n hp ms w1;
     Some (tid # tids, w2)
   }"

subsection \<open>A scenario\<close>

text \<open>Two handlers that leave the world alone: function 1 declines every event,
  function 2 consumes it.\<close>

definition scenario_fn :: "nat \<Rightarrow> HsmStateHandler" where
  "scenario_fn f hp s ev ud w = (f = 2, w)"

text \<open>A machine \<open>root\<close> at address 0 and its child at address 1, each on a context of its
  own. The child is in state \<open>A\<close>; its state \<open>X\<close> is registered with a null handler. One
  event, at address 0, is waiting to be dispatched. Thread 0 runs the loop of the root's
  context and thread 1, the one executing, the loop of the child's, which \<open>hsm_run\<close> has
  made its thread-default context.\<close>

definition root_machine :: Hsm where
  "root_machine =
     \<lparr>h_name = Some ''root'', h_current_state = Some ''r'', h_context = 1,
      h_loop = Some \<lparr>loop_context = 1, loop_is_running = True\<rparr>,
      h_thread = None, h_running = True, h_parent = None,
      h_states = [''r'' \<mapsto> \<lparr>st_name = Some ''r'', st_handler = Some 2, st_user_data = None\<rparr>],
      h_timers = Map.empty, h_next_timer_id = 1\<rparr>"

definition child_machine :: Hsm where
  "child_machine =
     \<lparr>h_name = Some ''child'', h_current_state = Some ''A'', h_context = 2,
      h_loop = Some \<lparr>loop_context = 2, loop_is_running = True\<rparr>,
      h_thread = None, h_running = True, h_parent = Some 0,
      h_states = [''A'' \<mapsto> \<lparr>st_name = Some ''A'', st_handler = Some 1, st_user_data = None\<rparr>,
                  ''B'' \<mapsto> \<lparr>st_name = Some ''B'', st_handler = Some 2, st_user_data = Some 5\<rparr>,
                  ''X'' \<mapsto> \<lparr>st_name = Some ''X'', st_handler = None, st_user_data = None\<rparr>],
      h_timers = Map.empty, h_next_timer_id = 1\<rparr>"

definition scenario_event :: HsmEvent where
  "scenario_event =
     \<lparr>ev_type = HSM_EVT_RESULT_OK, ev_name = Some ''done'', ev_source = Some ''child'',
      ev_seq = 7, ev_data = Some 42\<rparr>"

definition scenario :: world where
  "scenario =
     \<lparr>hsms = [Some root_machine, Some child_machine],
      events = [Some scenario_event],
      sources = [],
      glib = [],
      n_contexts = 2,
      n_threads = 0,
      g_thread_self = 1,
      ctx_owner = [1 \<mapsto> (0, 1), 2 \<mapsto> (1, 1)],
      thread_default = [Some 2]\<rparr>"

text \<open>The scenario after the child has scheduled a timer of 200 ms, and the scenario with
  a child whose timer counter has reached \<open>n\<close>.\<close>

definition timer_scenario :: world where
  "timer_scenario =
     scenario\<lparr>hsms := [Some root_machine,
                       Some (child_machine\<lparr>h_next_timer_id := 2, h_timers := [2 \<mapsto> 0]\<rparr>)],
              sources := [Some \<lparr>src_interval = 200,
                                src_callback = Some \<lparr>t_h = 1, t_timer_id = 2\<rparr>,
                                src_context = Some 2\<rparr>]\<rparr>"

definition worn_scenario :: "gint \<Rightarrow> world" where
  "worn_scenario n =
     scenario\<lparr>hsms := [Some root_machine, Some (child_machine\<lparr>h_next_timer_id := n\<rparr>)]\<rparr>"

text \<open>The scenario with the child parked in \<open>X\<close>, the state with the null handler.\<close>

definition parked_scenario :: world where
  "parked_scenario =
     scenario\<lparr>hsms := [Some root_machine,
                       Some (child_machine\<lparr>h_current_state := Some ''X''\<rparr>)]\<rparr>"

text \<open>The two machines made with \<open>use_own_context = FALSE\<close>: both on the global default
  context, whose loop thread 1 runs.\<close>

definition shared_scenario :: world where
  "shared_scenario =
     scenario\<lparr>hsms := [Some (root_machine\<lparr>h_context := 0,
                          h_loop := Some \<lparr>loop_context = 0, loop_is_running = True\<rparr>\<rparr>),
                       Some (child_machine\<lparr>h_context := 0,
                          h_loop := Some \<lparr>loop_context = 0, loop_is_running = True\<rparr>\<rparr>)],
              ctx_owner := [0 \<mapsto> (1, 1)],
              thread_default := [None]\<rparr>"

text \<open>Handlers that call back into the runtime. Function 1 of \<open>redirect_fn\<close>, given an
  \<open>EXIT\<close> event, takes its own handler off the state it is leaving and sends the machine
  to state \<open>C\<close>:
  \<open>hsm_register_state (h, state, NULL, NULL); hsm_change_state (h, "C"); return TRUE;\<close>
  Function 1 of \<open>posting_fn\<close>, given an \<open>EXIT\<close> event, posts an event to its own machine:
  \<open>hsm_post_event (h, hsm_event_new (HSM_EVT_STEP, "late", NULL, "child", 0)); return TRUE;\<close>
  On every other call both behave as \<open>scenario_fn\<close>. The calls that the nested run of
  the runtime makes in the scenario are of that kind, so that handing it \<open>scenario_fn\<close>
  is handing it the handlers themselves; the properties below state the nested run with
  \<open>redirect_fn\<close> and \<open>posting_fn\<close>.\<close>

definition redirect_fn :: "nat \<Rightarrow> HsmStateHandler" where
  "redirect_fn f hp s ev ud w =
     (if f = 1 \<and> hsm_event_get_type (Some ev) w = Some (HsmEventType_val HSM_EVT_EXIT)
      then (case hsm_register_state (Some hp) (Some s) None None w of
              None \<Rightarrow> (True, w)
            | Some w1 \<Rightarrow>
                (case hsm_change_state scenario_fn 1 (Some hp) (Some ''C'') w1 of
                   None \<Rightarrow> (True, w1)
                 | Some (w2, calls) \<Rightarrow> (True, w2)))
      else scenario_fn f hp s ev ud w)"

definition posting_fn :: "nat \<Rightarrow> HsmStateHandler" where
  "posting_fn f hp s ev ud w =
     (if f = 1 \<and> hsm_event_get_type (Some ev) w = Some (HsmEventType_val HSM_EVT_EXIT)
      then (let (p, w1) = hsm_event_new HSM_EVT_STEP (Some ''late'') None (Some ''child'') 0 w
            in case hsm_post_event scenario_fn 2 (Some hp) (Some p) w1 of
                 None \<Rightarrow> (True, w1)
               | Some (w2, calls) \<Rightarrow> (True, w2))
      else scenario_fn f hp s ev ud w)"

text \<open>The scenario with a state \<open>C\<close> registered on the child.\<close>

definition redirect_scenario :: world where
  "redirect_scenario =
     scenario\<lparr>hsms := [Some root_machine,
                       Some (child_machine\<lparr>h_states := (h_states child_machine)
                          (''C'' \<mapsto> \<lparr>st_name = Some ''C'', st_handler = Some 2,
                                     st_user_data = None\<rparr>)\<rparr>)]\<rparr>"

section \<open>Properties\<close>

text \<open>The recursive equations of \<open>hsm_process_post\<close> and \<open>g_invoke_loop\<close> are
  applied where they are named.\<close>

declare hsm_process_post.simps(2) [simp del]

declare g_invoke_loop.simps(2) [simp del]

subsection \<open>Strings and heaps\<close>

lemma g_strdup_id [simp]: "g_strdup s = s"
  by (simp add: g_strdup_def split: option.splits)

lemma strdup_if_set [simp]: "(case s of None \<Rightarrow> None | Some n \<Rightarrow> Some n) = s"
  by (simp split: option.splits)

lemma strcmp_eq_0_iff: "strcmp a b = 0 \<longleftrightarrow> a = b"
  by (induction a b rule: strcmp.induct) auto

lemma g_strcmp0_eq_0_iff: "g_strcmp0 s t = 0 \<longleftrightarrow> s = t"
  by (simp add: g_strcmp0_def strcmp_eq_0_iff split: option.splits)

lemma heap_get_free: "heap_get (heap_free H p) q = (if q = p then None else heap_get H q)"
  by (simp add: heap_get_def heap_free_def)

lemma heap_get_append_new: "heap_get (H @ [Some v]) (length H) = Some v"
  by (simp add: heap_get_def)

lemma heap_get_append_old: "heap_get H p = Some v \<Longrightarrow> heap_get (H @ [c]) p = Some v"
  by (auto simp: heap_get_def nth_append split: if_splits)

subsection \<open>Events and handlers\<close>

lemma hsm_event_new_fst: "fst (hsm_event_new k n d s q w) = length (events w)"
  by (simp add: hsm_event_new_def heap_new_def)

lemma hsm_event_new_snd:
  "snd (hsm_event_new k n d s q w) =
     w\<lparr>events := events w @
          [Some \<lparr>ev_type = k, ev_name = n, ev_source = s, ev_seq = q, ev_data = d\<rparr>]\<rparr>"
  by (simp add: hsm_event_new_def heap_new_def g_strdup_def split: option.splits)

lemma hsm_event_new_eq:
  "hsm_event_new k n d s q w =
     (length (events w),
      w\<lparr>events := events w @
          [Some \<lparr>ev_type = k, ev_name = n, ev_source = s, ev_seq = q, ev_data = d\<rparr>]\<rparr>)"
  by (simp add: hsm_event_new_def heap_new_def g_strdup_def split: option.splits)

lemma hsm_event_free_live:
  "heap_get (events w) p \<noteq> None \<Longrightarrow>
     hsm_event_free (Some p) w = Some (w\<lparr>events := heap_free (events w) p\<rparr>)"
  by (auto simp: hsm_event_free_def)

lemma hsm_event_free_frame:
  "hsm_event_free ev w = Some w' \<Longrightarrow>
     hsms w' = hsms w \<and> glib w' = glib w \<and> sources w' = sources w"
  by (auto simp: hsm_event_free_def split: option.splits)

lemma heap_get_hsm_put:
  "heap_get (hsms w) hp = Some h \<Longrightarrow> heap_get (hsms (hsm_put hp h' w)) hp = Some h'"
  by (auto simp: hsm_put_def heap_get_def heap_set_def split: if_splits)

lemma borrowD:
  assumes "handlers_borrow fn"
  shows "heap_get (hsms w) hp \<noteq> None \<Longrightarrow>
           heap_get (hsms (snd (fn f hp s ev ud w))) hp \<noteq> None"
    and "heap_get (events w) ev \<noteq> None \<Longrightarrow>
           heap_get (events (snd (fn f hp s ev ud w))) ev \<noteq> None"
  using assms unfolding handlers_borrow_def by blast+

lemma scenario_fn_borrows: "handlers_borrow scenario_fn"
  by (simp add: handlers_borrow_def scenario_fn_def)

text \<open>One synthesized dispatch: the event is allocated, handed to the handler, and freed.\<close>

lemma synth_dispatch:
  fixes k src w
  assumes borrow: "handlers_borrow fn" and live: "heap_get (hsms w) hp = Some h"
  defines "ev \<equiv> fst (hsm_event_new k None None src 0 w)"
  defines "wa \<equiv> snd (hsm_event_new k None None src 0 w)"
  shows "\<exists>wc hc. hsm_event_free (Some ev) (snd (fn f hp cs ev ud wa)) = Some wc
      \<and> heap_get (hsms wc) hp = Some hc
      \<and> heap_get (events wa) ev = Some (synthesized k src)
      \<and> heap_get (hsms wa) hp = Some h"
proof -
  have a: "heap_get (events wa) ev = Some (synthesized k src)"
    by (simp add: ev_def wa_def hsm_event_new_fst hsm_event_new_snd heap_get_append_new
        synthesized_def)
  have b: "heap_get (hsms wa) hp = Some h"
    using live by (simp add: wa_def hsm_event_new_snd)
  let ?wb = "snd (fn f hp cs ev ud wa)"
  have c: "heap_get (events ?wb) ev \<noteq> None"
    using borrowD(2)[OF borrow] a by simp
  have d: "heap_get (hsms ?wb) hp \<noteq> None"
    using borrowD(1)[OF borrow] b by simp
  from c have e: "hsm_event_free (Some ev) ?wb = Some (?wb\<lparr>events := heap_free (events ?wb) ev\<rparr>)"
    by (rule hsm_event_free_live)
  from d obtain hc where "heap_get (hsms ?wb) hp = Some hc" by auto
  with e a b show ?thesis by auto
qed

lemma HsmEvent_eta:
  "\<lparr>ev_type = ev_type e, ev_name = ev_name e, ev_source = ev_source e, ev_seq = ev_seq e,
    ev_data = ev_data e\<rparr> = e"
  by simp

lemma hsm_event_free_gone:
  "hsm_event_free (Some ev) w = Some w' \<Longrightarrow> heap_get (events w') ev = None"
  by (auto simp: hsm_event_free_def heap_get_free split: option.splits)

subsection \<open>Requests handed to GLib\<close>

text \<open>The callbacks of hsm.c return \<open>G_SOURCE_REMOVE\<close>, so the loop of
  \<open>g_main_context_invoke\<close> runs them once; and a request is either run at once or left
  on its context.\<close>

lemma g_invoke_loop_once:
  "function k w = Some (False, w1, calls) \<Longrightarrow>
     g_invoke_loop function (Suc n) k w = Some (w1, calls)"
  by (simp add: g_invoke_loop.simps)

lemma process_post_removes:
  "hsm_process_post fn n p w = Some (r, w', calls) \<Longrightarrow> r = G_SOURCE_REMOVE"
  by (cases n) (auto simp: hsm_process_post.simps bind_eq_Some_conv Let_def split_beta)

lemma invoke_loop_process_post:
  "g_invoke_loop (hsm_callback fn (hsm_process_post fn n)) n (Hsm_process_post p) w
     = map_option (\<lambda>(r, w', calls). (w', calls)) (hsm_process_post fn n p w)"
proof (cases n)
  case 0
  then show ?thesis by simp
next
  case (Suc m)
  show ?thesis
  proof (cases "hsm_process_post fn n p w")
    case None
    then show ?thesis unfolding Suc by (simp add: hsm_callback_def g_invoke_loop.simps)
  next
    case (Some t)
    then obtain r w' calls where t: "hsm_process_post fn n p w = Some (r, w', calls)"
      by (cases t) auto
    from process_post_removes[OF t] have "r = False" by (simp add: G_SOURCE_REMOVE_def)
    with t show ?thesis unfolding Suc by (simp add: hsm_callback_def g_invoke_loop.simps)
  qed
qed

lemma change_state_cb_removes:
  "hsm_change_state_invoke_cb fn r w = Some (b, w', calls) \<Longrightarrow> b = G_SOURCE_REMOVE"
  by (auto simp: hsm_change_state_invoke_cb_def bind_eq_Some_conv)

lemma invoke_loop_change_state_cb:
  "g_invoke_loop (hsm_callback fn pp) (Suc n) (Hsm_change_state_invoke_cb r) w
     = map_option (\<lambda>(b, w', calls). (w', calls)) (hsm_change_state_invoke_cb fn r w)"
proof (cases "hsm_change_state_invoke_cb fn r w")
  case None
  then show ?thesis by (simp add: hsm_callback_def g_invoke_loop.simps)
next
  case (Some t)
  then obtain b w' calls where t: "hsm_change_state_invoke_cb fn r w = Some (b, w', calls)"
    by (cases t) auto
  from change_state_cb_removes[OF t] have "b = False" by (simp add: G_SOURCE_REMOVE_def)
  with t show ?thesis by (simp add: hsm_callback_def g_invoke_loop.simps)
qed

lemma invoke_queued:
  "\<not> g_runs_at_once c w \<Longrightarrow>
     g_main_context_invoke function n c k w
       = Some (w\<lparr>glib := glib w @ [G_main_context_invoke c k]\<rparr>, [])"
  by (auto simp: g_main_context_invoke_def g_runs_at_once_def g_main_context_acquire_def
      g_main_context_is_owner_def g_idle_attach_def Let_def split: option.splits prod.splits)

lemma invoke_at_once:
  "g_runs_at_once c w \<Longrightarrow>
     g_main_context_invoke function n c k w
       = g_invoke_loop function n k (g_enter c w)
           \<bind> (\<lambda>(w2, calls). Some (g_leave c w w2, calls))"
  by (auto simp: g_main_context_invoke_def g_runs_at_once_def g_main_context_acquire_def
      g_main_context_is_owner_def g_enter_def g_leave_def Let_def
      split: option.splits prod.splits)

subsection \<open>Evaluation\<close>

text \<open>The equations that evaluate the runtime on the scenario.\<close>

lemmas hsm_eval =
  hsm_schedule_timer_def hsm_cancel_timer_def g_timeout_dispatch_def hsm_timer_source_cb_def
  hsm_change_state_internal_def hsm_process_post.simps(2) hsm_post_event_def hsm_change_state_def
  hsm_callback_def hsm_change_state_invoke_cb_def hsm_register_state_def hsm_state_new_def
  g_main_context_invoke_def g_invoke_loop.simps(2) g_main_context_is_owner_def g_main_context_acquire_def
  g_main_context_release_def g_main_context_get_thread_default_def g_main_context_default_def
  g_idle_attach_def g_runs_at_once_def g_enter_def g_leave_def
  hsm_event_new_eq hsm_event_free_def hsm_event_get_type_def
  g_source_destroy_def g_source_attach_def g_source_set_callback_def
  g_timeout_source_new_def hsm_put_def heap_get_def heap_set_def
  heap_free_def heap_new_def G_SOURCE_REMOVE_def g_strcmp0_def g_strdup_def Let_def
  scenario_def child_machine_def root_machine_def scenario_fn_def scenario_event_def

lemmas reentrant_eval =
  redirect_fn_def posting_fn_def redirect_scenario_def HsmEventType_val.simps

subsection \<open>Event accessors on a null event\<close>

text \<open>
  C9. Every event accessor is total on a null event and returns a fixed sentinel:
  \<open>hsm_event_get_type (NULL)\<close> returns 0, the value of \<open>HSM_EVT_START\<close>;
  \<open>hsm_event_get_name\<close>, \<open>hsm_event_get_source\<close> and \<open>hsm_event_get_data\<close> return \<open>NULL\<close>;
  \<open>hsm_event_get_seq\<close> returns 0; and \<open>hsm_event_free (NULL)\<close> leaves the world as it is.
\<close>

theorem event_accessors_null:
  "hsm_event_get_type None w = Some (HsmEventType_val HSM_EVT_START)
   \<and> hsm_event_get_type None w = Some 0
   \<and> hsm_event_get_name None w = Some None
   \<and> hsm_event_get_source None w = Some None
   \<and> hsm_event_get_data None w = Some None
   \<and> hsm_event_get_seq None w = Some 0
   \<and> hsm_event_free None w = Some w"
  by (simp add: hsm_event_get_type_def hsm_event_get_name_def hsm_event_get_source_def
      hsm_event_get_data_def hsm_event_get_seq_def hsm_event_free_def)

subsection \<open>The transition protocol\<close>

lemma change_state_internal_steps:
  "hsm_change_state_internal fn hp T w = do {
     h \<leftarrow> heap_get (hsms w) hp;
     if h_current_state h = Some T then Some (w, [])
     else do {
       (w1, exits) \<leftarrow> exit_step fn hp h w;
       h1 \<leftarrow> heap_get (hsms w1) hp;
       entry_step fn hp (h1\<lparr>h_current_state := Some T\<rparr>) exits
         (hsm_put hp (h1\<lparr>h_current_state := Some T\<rparr>) w1)
     }
   }"
  unfolding hsm_change_state_internal_def exit_step_def entry_step_def
  by (simp add: g_strcmp0_eq_0_iff g_strdup_def Let_def cong: if_cong)

lemma exit_step_result:
  assumes live: "heap_get (hsms w) hp = Some h"
      and borrow: "handlers_borrow fn"
  shows "\<exists>exits w1 h1. exit_step fn hp h w = Some (w1, exits)
     \<and> (case resolve h of
         None \<Rightarrow> exits = [] \<and> w1 = w
       | Some (S, f, ud) \<Rightarrow>
           (\<exists>ev wa. h_current_state h = Some S
             \<and> (ev, wa) = hsm_event_new HSM_EVT_EXIT None None (h_name h) 0 w
             \<and> exits = [Invoke f hp S ev ud wa]
             \<and> heap_get (events wa) ev = Some (synthesized HSM_EVT_EXIT (h_name h))
             \<and> heap_get (hsms wa) hp = Some h
             \<and> hsm_event_free (Some ev) (snd (fn f hp S ev ud wa)) = Some w1))
     \<and> heap_get (hsms w1) hp = Some h1"
proof (cases "resolve h")
  case None
  then have "exit_step fn hp h w = Some (w, [])"
    by (auto simp: exit_step_def resolve_def split: option.splits)
  with None live show ?thesis by auto
next
  case (Some t)
  then obtain S f ud where t: "resolve h = Some (S, f, ud)" by (cases t) auto
  then obtain old where o: "h_current_state h = Some S" "h_states h S = Some old"
      "st_handler old = Some f" "st_user_data old = ud"
    by (auto simp: resolve_def split: option.splits)
  let ?ev = "fst (hsm_event_new HSM_EVT_EXIT None None (h_name h) 0 w)"
  let ?wa = "snd (hsm_event_new HSM_EVT_EXIT None None (h_name h) 0 w)"
  from synth_dispatch[OF borrow live, of HSM_EVT_EXIT "h_name h" f S ud]
  obtain wc hc where s:
    "hsm_event_free (Some ?ev) (snd (fn f hp S ?ev ud ?wa)) = Some wc"
    "heap_get (hsms wc) hp = Some hc"
    "heap_get (events ?wa) ?ev = Some (synthesized HSM_EVT_EXIT (h_name h))"
    "heap_get (hsms ?wa) hp = Some h"
    by blast
  have "exit_step fn hp h w = Some (wc, [Invoke f hp S ?ev ud ?wa])"
    using o s(1) by (simp add: exit_step_def split_beta Let_def)
  with t o s show ?thesis by (auto simp: prod_eq_iff)
qed

lemma entry_step_result:
  assumes live: "heap_get (hsms w2) hp = Some h2"
      and cur: "h_current_state h2 = Some T"
      and borrow: "handlers_borrow fn"
  shows "\<exists>entries w'. entry_step fn hp h2 exits w2 = Some (w', exits @ entries)
     \<and> (case resolve h2 of
         None \<Rightarrow> entries = [] \<and> w' = w2
       | Some (S', f, ud) \<Rightarrow>
           (\<exists>ev wb. S' = T
             \<and> (ev, wb) = hsm_event_new HSM_EVT_ENTRY None None (h_name h2) 0 w2
             \<and> entries = [Invoke f hp T ev ud wb]
             \<and> heap_get (events wb) ev = Some (synthesized HSM_EVT_ENTRY (h_name h2))
             \<and> heap_get (hsms wb) hp = Some h2
             \<and> hsm_event_free (Some ev) (snd (fn f hp T ev ud wb)) = Some w'))"
proof (cases "resolve h2")
  case None
  then have "entry_step fn hp h2 exits w2 = Some (w2, exits @ [])"
    using cur by (auto simp: entry_step_def resolve_def split: option.splits)
  with None show ?thesis by auto
next
  case (Some t)
  then obtain S' f ud where t: "resolve h2 = Some (S', f, ud)" by (cases t) auto
  then obtain newst where o: "S' = T" "h_states h2 T = Some newst"
      "st_handler newst = Some f" "st_user_data newst = ud"
    using cur by (auto simp: resolve_def split: option.splits)
  let ?ev = "fst (hsm_event_new HSM_EVT_ENTRY None None (h_name h2) 0 w2)"
  let ?wa = "snd (hsm_event_new HSM_EVT_ENTRY None None (h_name h2) 0 w2)"
  from synth_dispatch[OF borrow live, of HSM_EVT_ENTRY "h_name h2" f T ud]
  obtain wc hc where s:
    "hsm_event_free (Some ?ev) (snd (fn f hp T ?ev ud ?wa)) = Some wc"
    "heap_get (hsms wc) hp = Some hc"
    "heap_get (events ?wa) ?ev = Some (synthesized HSM_EVT_ENTRY (h_name h2))"
    "heap_get (hsms ?wa) hp = Some h2"
    by blast
  have "entry_step fn hp h2 exits w2 = Some (wc, exits @ [Invoke f hp T ?ev ud ?wa])"
    using cur o s(1) by (simp add: entry_step_def split_beta Let_def)
  with t o s show ?thesis by (auto simp: prod_eq_iff)
qed



subsection \<open>Dispatch and bubbling\<close>

lemma process_post_steps:
  assumes live: "heap_get (hsms w) hp = Some h"
      and run: "(handled, w1) = (case resolve h of
                                   None \<Rightarrow> (False, w)
                                 | Some (cs, f, ud) \<Rightarrow> fn f hp cs ev ud w)"
      and after: "heap_get (hsms w1) hp = Some h1"
  shows "hsm_process_post fn (Suc n) \<lparr>p_h = hp, p_ev = ev\<rparr> w =
       bubble_step (g_main_context_invoke (hsm_callback fn (hsm_process_post fn n)) n) ev
         (if handled then None else h_parent h1) w1
       \<bind> (\<lambda>(w2, nested). Some (G_SOURCE_REMOVE, w2,
                (case resolve h of None \<Rightarrow> [] | Some (cs, f, ud) \<Rightarrow> [Invoke f hp cs ev ud w])
                @ nested))"
proof -
  let ?calls = "(case resolve h of None \<Rightarrow> [] | Some (cs, f, ud) \<Rightarrow> [Invoke f hp cs ev ud w])"
  have triple: "(case (case h_current_state h of
                 None \<Rightarrow> None
               | Some cs \<Rightarrow> map_option (\<lambda>s. (cs, s)) (h_states h cs)) of
          None \<Rightarrow> (False, w, [])
        | Some (cs, s) \<Rightarrow>
            (case st_handler s of
               None \<Rightarrow> (False, w, [])
             | Some f \<Rightarrow>
                 (let (r, wa) = fn f hp cs ev (st_user_data s) w
                  in (r, wa, [Invoke f hp cs ev (st_user_data s) w])))) = (handled, w1, ?calls)"
    using run by (auto simp: resolve_def split: option.splits prod.splits)
  show ?thesis
    unfolding hsm_process_post.simps bubble_step_def using live after triple
    by (simp add: Let_def)
qed

lemma bubble_step_none:
  "heap_get (events w1) ev = Some e1 \<Longrightarrow>
     bubble_step invoke ev None w1 = Some (w1\<lparr>events := heap_free (events w1) ev\<rparr>, [])"
  by (simp add: bubble_step_def hsm_event_free_def)

lemma bubble_step_some:
  "heap_get (events w1) ev = Some e1 \<Longrightarrow> heap_get (hsms w1) pp = Some pm \<Longrightarrow>
     bubble_step invoke ev (Some pp) w1 =
       invoke (h_context pm) (Hsm_process_post \<lparr>p_h = pp, p_ev = length (events w1)\<rparr>)
         (w1\<lparr>events := events w1 @ [Some e1]\<rparr>)
       \<bind> (\<lambda>(wb, nested). hsm_event_free (Some ev) wb \<bind> (\<lambda>wc. Some (wc, nested)))"
  by (simp add: bubble_step_def hsm_event_new_eq HsmEvent_eta)

lemma bubble_step_queued:
  assumes e1: "heap_get (events w1) ev = Some e1"
      and pm: "heap_get (hsms w1) pp = Some pm"
      and q: "\<not> g_runs_at_once (h_context pm) (w1\<lparr>events := events w1 @ [Some e1]\<rparr>)"
  shows "\<exists>w'. bubble_step (g_main_context_invoke function n) ev (Some pp) w1 = Some (w', [])
      \<and> heap_get (events w') ev = None
      \<and> hsms w' = hsms w1
      \<and> heap_get (events w') (length (events w1)) = Some e1
      \<and> glib w' = glib w1 @ [G_main_context_invoke (h_context pm)
                                (Hsm_process_post \<lparr>p_h = pp, p_ev = length (events w1)\<rparr>)]
      \<and> (\<forall>q. q \<noteq> ev \<and> q \<noteq> length (events w1)
             \<longrightarrow> heap_get (events w') q = heap_get (events w1) q)"
proof -
  let ?copy = "length (events w1)"
  let ?wa = "w1\<lparr>events := events w1 @ [Some e1]\<rparr>"
  let ?wb = "?wa\<lparr>glib := glib ?wa @ [G_main_context_invoke (h_context pm)
                      (Hsm_process_post \<lparr>p_h = pp, p_ev = ?copy\<rparr>)]\<rparr>"
  let ?w' = "?wb\<lparr>events := heap_free (events ?wb) ev\<rparr>"
  have ne: "?copy \<noteq> ev" using e1 by (auto simp: heap_get_def split: if_splits)
  have evb: "heap_get (events ?wb) ev \<noteq> None"
    using e1 by (simp add: heap_get_append_old)
  have res: "bubble_step (g_main_context_invoke function n) ev (Some pp) w1 = Some (?w', [])"
    using hsm_event_free_live[OF evb]
    by (simp add: bubble_step_some[OF e1 pm] invoke_queued[OF q])
  have copy: "heap_get (events ?w') ?copy = Some e1"
    using ne by (simp add: heap_get_free heap_get_append_new)
  have others: "\<forall>q. q \<noteq> ev \<and> q \<noteq> ?copy
                  \<longrightarrow> heap_get (events ?w') q = heap_get (events w1) q"
    by (auto simp: heap_get_def heap_free_def nth_append)
  have gone: "heap_get (events ?w') ev = None" by (simp add: heap_get_free)
  show ?thesis
    apply (rule_tac x = ?w' in exI)
    apply (intro conjI)
         apply (rule res)
        apply (rule gone)
       apply simp
      apply (rule copy)
     apply simp
    apply (rule others)
    done
qed

lemma bubble_step_at_once:
  assumes e1: "heap_get (events w1) ev = Some e1"
      and pm: "heap_get (hsms w1) pp = Some pm"
      and q: "g_runs_at_once (h_context pm) (w1\<lparr>events := events w1 @ [Some e1]\<rparr>)"
  shows "bubble_step (g_main_context_invoke (hsm_callback fn (hsm_process_post fn n)) n) ev
           (Some pp) w1
       = hsm_process_post fn n \<lparr>p_h = pp, p_ev = length (events w1)\<rparr>
           (g_enter (h_context pm) (w1\<lparr>events := events w1 @ [Some e1]\<rparr>))
         \<bind> (\<lambda>(r2, w2, nested).
               hsm_event_free (Some ev)
                 (g_leave (h_context pm) (w1\<lparr>events := events w1 @ [Some e1]\<rparr>) w2)
               \<bind> (\<lambda>w3. Some (w3, nested)))"
  by (cases "hsm_process_post fn n \<lparr>p_h = pp, p_ev = length (events w1)\<rparr>
           (g_enter (h_context pm) (w1\<lparr>events := events w1 @ [Some e1]\<rparr>))")
     (auto simp: bubble_step_some[OF e1 pm] invoke_at_once[OF q] invoke_loop_process_post)


text \<open>The result of bubbling, by the three cases.\<close>

lemma bubble_step_result:
  assumes e1: "heap_get (events w1) ev = Some e1"
      and parent_live: "\<forall>pp. parent = Some pp \<longrightarrow> heap_get (hsms w1) pp \<noteq> None"
  shows "case parent of
      None \<Rightarrow>
        (\<exists>w'. bubble_step (g_main_context_invoke (hsm_callback fn (hsm_process_post fn n)) n)
                 ev parent w1 = Some (w', [])
           \<and> heap_get (events w') ev = None
           \<and> hsms w' = hsms w1
           \<and> glib w' = glib w1
           \<and> events w' = heap_free (events w1) ev)
    | Some pp \<Rightarrow>
        (\<exists>copy pm wa. heap_get (hsms w1) pp = Some pm
           \<and> heap_get (events w1) copy = None
           \<and> copy \<noteq> ev
           \<and> wa = w1\<lparr>events := events w1 @ [Some e1]\<rparr>
           \<and> heap_get (events wa) copy = Some e1
           \<and> (if g_runs_at_once (h_context pm) wa
              then bubble_step (g_main_context_invoke (hsm_callback fn (hsm_process_post fn n)) n)
                     ev parent w1
                   = hsm_process_post fn n \<lparr>p_h = pp, p_ev = copy\<rparr> (g_enter (h_context pm) wa)
                     \<bind> (\<lambda>(r2, w2, nested).
                           hsm_event_free (Some ev) (g_leave (h_context pm) wa w2)
                           \<bind> (\<lambda>w3. Some (w3, nested)))
              else (\<exists>w'. bubble_step
                            (g_main_context_invoke (hsm_callback fn (hsm_process_post fn n)) n)
                            ev parent w1 = Some (w', [])
                      \<and> heap_get (events w') ev = None
                      \<and> hsms w' = hsms w1
                      \<and> heap_get (events w') copy = Some e1
                      \<and> glib w' = glib w1 @ [G_main_context_invoke (h_context pm)
                                                (Hsm_process_post \<lparr>p_h = pp, p_ev = copy\<rparr>)]
                      \<and> (\<forall>q. q \<noteq> ev \<and> q \<noteq> copy
                             \<longrightarrow> heap_get (events w') q = heap_get (events w1) q))))"
proof (cases parent)
  case None
  then show ?thesis using bubble_step_none[OF e1] by (simp add: heap_get_free)
next
  case (Some pp)
  with parent_live obtain pm where pm: "heap_get (hsms w1) pp = Some pm" by blast
  let ?copy = "length (events w1)"
  let ?wa = "w1\<lparr>events := events w1 @ [Some e1]\<rparr>"
  have ne: "?copy \<noteq> ev" using e1 by (auto simp: heap_get_def split: if_splits)
  have fresh: "heap_get (events w1) ?copy = None" by (simp add: heap_get_def)
  have new: "heap_get (events ?wa) ?copy = Some e1" by (simp add: heap_get_append_new)
  have body: "if g_runs_at_once (h_context pm) ?wa
              then bubble_step (g_main_context_invoke (hsm_callback fn (hsm_process_post fn n)) n)
                     ev (Some pp) w1
                   = hsm_process_post fn n \<lparr>p_h = pp, p_ev = ?copy\<rparr> (g_enter (h_context pm) ?wa)
                     \<bind> (\<lambda>(r2, w2, nested).
                           hsm_event_free (Some ev) (g_leave (h_context pm) ?wa w2)
                           \<bind> (\<lambda>w3. Some (w3, nested)))
              else (\<exists>w'. bubble_step
                            (g_main_context_invoke (hsm_callback fn (hsm_process_post fn n)) n)
                            ev (Some pp) w1 = Some (w', [])
                      \<and> heap_get (events w') ev = None
                      \<and> hsms w' = hsms w1
                      \<and> heap_get (events w') ?copy = Some e1
                      \<and> glib w' = glib w1 @ [G_main_context_invoke (h_context pm)
                                                (Hsm_process_post \<lparr>p_h = pp, p_ev = ?copy\<rparr>)]
                      \<and> (\<forall>q. q \<noteq> ev \<and> q \<noteq> ?copy
                             \<longrightarrow> heap_get (events w') q = heap_get (events w1) q))"
  proof (cases "g_runs_at_once (h_context pm) ?wa")
    case True
    with bubble_step_at_once[OF e1 pm True] show ?thesis by simp
  next
    case False
    with bubble_step_queued[OF e1 pm False] show ?thesis by simp
  qed
  show ?thesis
    apply (simp only: Some option.case)
    apply (rule_tac x = ?copy in exI)
    apply (rule_tac x = pm in exI)
    apply (rule_tac x = ?wa in exI)
    apply (intro conjI)
         apply (rule pm)
        apply (rule fresh)
       apply (rule ne)
      apply (rule refl)
     apply (rule new)
    apply (rule body)
    done
qed

lemma bubble_step_frees:
  "bubble_step invoke ev parent w1 = Some (w2, nested) \<Longrightarrow> heap_get (events w2) ev = None"
  by (cases parent)
     (auto simp: bubble_step_def bind_eq_Some_conv split_beta dest: hsm_event_free_gone)

text \<open>\<open>hsm_process_post\<close> in terms of the handler the machine resolves to and the
  bubbling step, with no assumption.\<close>

lemma process_post_unfold:
  "hsm_process_post fn (Suc n) p w =
     (case heap_get (hsms w) (p_h p) of
        None \<Rightarrow> None
      | Some h \<Rightarrow>
          (let t = (case resolve h of
                      None \<Rightarrow> (False, w)
                    | Some (cs, f, ud) \<Rightarrow> fn f (p_h p) cs (p_ev p) ud w)
           in case heap_get (hsms (snd t)) (p_h p) of
                None \<Rightarrow> None
              | Some h1 \<Rightarrow>
                  bubble_step (g_main_context_invoke (hsm_callback fn (hsm_process_post fn n)) n)
                    (p_ev p) (if fst t then None else h_parent h1) (snd t)
                  \<bind> (\<lambda>(w2, nested). Some (G_SOURCE_REMOVE, w2,
                         (case resolve h of
                            None \<Rightarrow> []
                          | Some (cs, f, ud) \<Rightarrow> [Invoke f (p_h p) cs (p_ev p) ud w])
                         @ nested))))"
proof (cases "heap_get (hsms w) (p_h p)")
  case None
  then show ?thesis by (simp add: hsm_process_post.simps(2) Let_def)
next
  case (Some h)
  let ?t = "(case resolve h of
               None \<Rightarrow> (False, w)
             | Some (cs, f, ud) \<Rightarrow> fn f (p_h p) cs (p_ev p) ud w)"
  have run: "(fst ?t, snd ?t) = ?t" by simp
  have p: "\<lparr>p_h = p_h p, p_ev = p_ev p\<rparr> = p" by simp
  show ?thesis
  proof (cases "heap_get (hsms (snd ?t)) (p_h p)")
    case None
    have triple: "(case (case h_current_state h of
                 None \<Rightarrow> None
               | Some cs \<Rightarrow> map_option (\<lambda>s. (cs, s)) (h_states h cs)) of
          None \<Rightarrow> (False, w, [])
        | Some (cs, s) \<Rightarrow>
            (case st_handler s of
               None \<Rightarrow> (False, w, [])
             | Some f \<Rightarrow>
                 (let (r, wa) = fn f (p_h p) cs (p_ev p) (st_user_data s) w
                  in (r, wa, [Invoke f (p_h p) cs (p_ev p) (st_user_data s) w]))))
        = (fst ?t, snd ?t, (case resolve h of None \<Rightarrow> []
                         | Some (cs, f, ud) \<Rightarrow> [Invoke f (p_h p) cs (p_ev p) ud w]))"
      by (auto simp: resolve_def split: option.splits prod.splits)
    show ?thesis
      unfolding hsm_process_post.simps(2) using Some None triple
      by (simp add: Let_def)
  next
    case (Some h1)
    from process_post_steps[where fn = fn and ev = "p_ev p" and w = w and n = n and hp = "p_h p",
        OF \<open>heap_get (hsms w) (p_h p) = Some h\<close> run Some]
    show ?thesis
      using \<open>heap_get (hsms w) (p_h p) = Some h\<close> Some
      by (simp add: p Let_def)
  qed
qed

lemma process_post_frees:
  assumes "hsm_process_post fn n p w = Some (r, w', calls)"
  shows "heap_get (events w') (p_ev p) = None"
proof (cases n)
  case 0
  with assms show ?thesis by simp
next
  case (Suc m)
  with assms show ?thesis
    by (auto simp: process_post_unfold Let_def bind_eq_Some_conv
        split: option.splits dest: bubble_step_frees)
qed

text \<open>The bound is only a bound: a dispatch that ends within it ends the same way within
  any larger one.\<close>

lemma g_invoke_loop_mono:
  assumes le: "\<And>k w r. F k w = Some r \<Longrightarrow> F' k w = Some r"
  shows "g_invoke_loop F n k w = Some r \<Longrightarrow> g_invoke_loop F' (Suc n) k w = Some r"
proof (induction n arbitrary: w r)
  case 0
  then show ?case by simp
next
  case (Suc n)
  from Suc.prems obtain again w1 calls where f: "F k w = Some (again, w1, calls)"
    by (auto simp: g_invoke_loop.simps(2) bind_eq_Some_conv)
  show ?case
  proof (cases again)
    case True
    with Suc.prems f obtain w2 calls2 where l: "g_invoke_loop F n k w1 = Some (w2, calls2)"
      and r: "r = (w2, calls @ calls2)"
      by (auto simp: g_invoke_loop.simps(2) bind_eq_Some_conv)
    from Suc.IH[OF l] le[OF f] True r show ?thesis
      by (simp add: g_invoke_loop.simps(2)[of F' "Suc n"])
  next
    case False
    with Suc.prems f le[OF f] show ?thesis
      by (simp add: g_invoke_loop.simps(2))
  qed
qed

lemma g_main_context_invoke_mono:
  assumes le: "\<And>k w r. F k w = Some r \<Longrightarrow> F' k w = Some r"
      and run: "g_main_context_invoke F n c k w = Some r"
  shows "g_main_context_invoke F' (Suc n) c k w = Some r"
  using run g_invoke_loop_mono[of F F', OF le]
  by (auto simp: g_main_context_invoke_def Let_def bind_eq_Some_conv
      split: if_splits prod.splits bool.splits)

lemma bubble_step_mono:
  assumes le: "\<And>c k w r. invoke c k w = Some r \<Longrightarrow> invoke' c k w = Some r"
      and run: "bubble_step invoke ev parent w1 = Some r"
  shows "bubble_step invoke' ev parent w1 = Some r"
  using run
  by (cases parent)
     (auto simp: bubble_step_def bind_eq_Some_conv split_beta dest!: le)

lemma process_post_fuel_mono:
  "hsm_process_post fn n p w = Some r \<Longrightarrow> hsm_process_post fn (Suc n) p w = Some r"
proof (induction n arbitrary: p w r)
  case 0
  then show ?case by simp
next
  case (Suc n)
  have le: "\<And>k w r. hsm_callback fn (hsm_process_post fn n) k w = Some r
              \<Longrightarrow> hsm_callback fn (hsm_process_post fn (Suc n)) k w = Some r"
    using Suc.IH by (auto simp: hsm_callback_def split: closure.splits)
  have iv: "\<And>c k w r.
      g_main_context_invoke (hsm_callback fn (hsm_process_post fn n)) n c k w = Some r
      \<Longrightarrow> g_main_context_invoke (hsm_callback fn (hsm_process_post fn (Suc n))) (Suc n) c k w
            = Some r"
    by (rule g_main_context_invoke_mono[of "hsm_callback fn (hsm_process_post fn n)"
                "hsm_callback fn (hsm_process_post fn (Suc n))", OF le])
  note b = bubble_step_mono[of
      "g_main_context_invoke (hsm_callback fn (hsm_process_post fn n)) n"
      "g_main_context_invoke (hsm_callback fn (hsm_process_post fn (Suc n))) (Suc n)", OF iv]
  note eq1 = process_post_unfold[of fn n p w]
  note eq2 = process_post_unfold[of fn "Suc n" p w]
  from Suc.prems[unfolded eq1] show ?case
    unfolding eq2
    by (auto simp: Let_def bind_eq_Some_conv split: option.splits intro: b)
qed

subsection \<open>Handlers that call back into the runtime\<close>

text \<open>The handlers of \<open>scenario_fn\<close> leave machines and events as they are, and so do a
  transition and a dispatch that invoke only them, apart from the events they allocate
  and free themselves. The handlers of \<open>redirect_fn\<close> and \<open>posting_fn\<close>, which run such a
  transition or dispatch, therefore keep the handler contract.\<close>

lemma quiet_synth:
  "hsm_event_free (Some (length (events w)))
     (w\<lparr>events := events w @ [Some x]\<rparr>) = Some w1 \<Longrightarrow>
   hsms w1 = hsms w \<and> glib w1 = glib w
   \<and> g_thread_self w1 = g_thread_self w \<and> ctx_owner w1 = ctx_owner w
   \<and> thread_default w1 = thread_default w
   \<and> (\<forall>e. heap_get (events w) e \<noteq> None \<longrightarrow> heap_get (events w1) e \<noteq> None)"
  by (auto simp: hsm_event_free_def heap_get_def heap_free_def nth_append
      split: option.splits if_splits)

lemma exit_step_quiet:
  assumes "exit_step scenario_fn hp h w = Some (w1, exits)"
  shows "hsms w1 = hsms w \<and> glib w1 = glib w
   \<and> g_thread_self w1 = g_thread_self w \<and> ctx_owner w1 = ctx_owner w
   \<and> thread_default w1 = thread_default w
   \<and> (\<forall>e. heap_get (events w) e \<noteq> None \<longrightarrow> heap_get (events w1) e \<noteq> None)"
proof (cases "resolve h")
  case None
  then have "exit_step scenario_fn hp h w = Some (w, [])"
    by (auto simp: exit_step_def resolve_def split: option.splits)
  with assms show ?thesis by simp
next
  case (Some t)
  then obtain S f ud where t: "resolve h = Some (S, f, ud)" by (cases t) auto
  then obtain old where o: "h_current_state h = Some S" "h_states h S = Some old"
      "st_handler old = Some f" "st_user_data old = ud"
    by (auto simp: resolve_def split: option.splits)
  from assms o have "hsm_event_free (Some (length (events w)))
     (w\<lparr>events := events w @ [Some \<lparr>ev_type = HSM_EVT_EXIT, ev_name = None,
          ev_source = h_name h, ev_seq = 0, ev_data = None\<rparr>]\<rparr>) = Some w1"
    by (auto simp: exit_step_def hsm_event_new_eq scenario_fn_def Let_def bind_eq_Some_conv)
  then show ?thesis by (rule quiet_synth)
qed

lemma entry_step_quiet:
  assumes "entry_step scenario_fn hp h2 exits w = Some (w1, calls)"
  shows "hsms w1 = hsms w \<and> glib w1 = glib w
   \<and> g_thread_self w1 = g_thread_self w \<and> ctx_owner w1 = ctx_owner w
   \<and> thread_default w1 = thread_default w
   \<and> (\<forall>e. heap_get (events w) e \<noteq> None \<longrightarrow> heap_get (events w1) e \<noteq> None)"
proof (cases "resolve h2")
  case None
  then have "entry_step scenario_fn hp h2 exits w = Some (w, exits)
             \<or> entry_step scenario_fn hp h2 exits w = None"
    by (auto simp: entry_step_def resolve_def split: option.splits)
  with assms show ?thesis by auto
next
  case (Some t)
  then obtain S f ud where t: "resolve h2 = Some (S, f, ud)" by (cases t) auto
  then obtain newst where o: "h_current_state h2 = Some S" "h_states h2 S = Some newst"
      "st_handler newst = Some f" "st_user_data newst = ud"
    by (auto simp: resolve_def split: option.splits)
  from assms o have "hsm_event_free (Some (length (events w)))
     (w\<lparr>events := events w @ [Some \<lparr>ev_type = HSM_EVT_ENTRY, ev_name = None,
          ev_source = h_name h2, ev_seq = 0, ev_data = None\<rparr>]\<rparr>) = Some w1"
    by (auto simp: entry_step_def hsm_event_new_eq scenario_fn_def Let_def bind_eq_Some_conv)
  then show ?thesis by (rule quiet_synth)
qed

lemma hsm_put_live:
  "heap_get (hsms w) q \<noteq> None \<Longrightarrow> heap_get (hsms (hsm_put hp h w)) q \<noteq> None"
  by (cases "q = hp")
     (auto simp: hsm_put_def heap_get_def heap_set_def nth_list_update split: if_splits)

lemma change_state_internal_quiet:
  assumes "hsm_change_state_internal scenario_fn hp T w = Some (w', calls)"
  shows "(\<forall>q. heap_get (hsms w) q \<noteq> None \<longrightarrow> heap_get (hsms w') q \<noteq> None)
   \<and> (\<forall>e. heap_get (events w) e \<noteq> None \<longrightarrow> heap_get (events w') e \<noteq> None)"
proof -
  from assms obtain h where h: "heap_get (hsms w) hp = Some h"
    by (auto simp: change_state_internal_steps bind_eq_Some_conv)
  show ?thesis
  proof (cases "h_current_state h = Some T")
    case True
    with assms h show ?thesis by (simp add: change_state_internal_steps)
  next
    case False
    with assms h obtain w1 exits h1 where
      ex: "exit_step scenario_fn hp h w = Some (w1, exits)"
      and h1: "heap_get (hsms w1) hp = Some h1"
      and en: "entry_step scenario_fn hp (h1\<lparr>h_current_state := Some T\<rparr>) exits
                 (hsm_put hp (h1\<lparr>h_current_state := Some T\<rparr>) w1) = Some (w', calls)"
      by (auto simp: change_state_internal_steps bind_eq_Some_conv)
    note a = exit_step_quiet[OF ex]
    note b = entry_step_quiet[OF en]
    have "\<And>q. heap_get (hsms w) q \<noteq> None \<Longrightarrow> heap_get (hsms w') q \<noteq> None"
      using a b hsm_put_live[of w1 _ hp] by simp
    moreover have "\<And>e. heap_get (events w) e \<noteq> None \<Longrightarrow> heap_get (events w') e \<noteq> None"
      using a b by (simp add: hsm_put_def)
    ultimately show ?thesis by blast
  qed
qed

lemma g_enter_frame [simp]:
  "hsms (g_enter c w) = hsms w" "events (g_enter c w) = events w"
  by (auto simp: g_enter_def g_main_context_acquire_def split: option.splits)

lemma g_leave_frame [simp]:
  "hsms (g_leave c w w2) = hsms w2" "events (g_leave c w w2) = events w2"
  by (auto simp: g_leave_def g_main_context_release_def split: option.splits)

lemma change_state_quiet:
  assumes "hsm_change_state scenario_fn n (Some hp) (Some T) w = Some (w', calls)"
  shows "(\<forall>q. heap_get (hsms w) q \<noteq> None \<longrightarrow> heap_get (hsms w') q \<noteq> None)
   \<and> (\<forall>e. heap_get (events w) e \<noteq> None \<longrightarrow> heap_get (events w') e \<noteq> None)"
proof -
  from assms obtain m where m: "heap_get (hsms w) hp = Some m"
    by (auto simp: hsm_change_state_def bind_eq_Some_conv)
  show ?thesis
  proof (cases "g_main_context_get_thread_default w = Some (h_context m)")
    case True
    with assms m have "hsm_change_state_internal scenario_fn hp T w = Some (w', calls)"
      by (simp add: hsm_change_state_def)
    then show ?thesis by (rule change_state_internal_quiet)
  next
    case False
    let ?k = "Hsm_change_state_invoke_cb \<lparr>r_h = hp, r_ns = T\<rparr>"
    from assms m False
    have inv: "g_main_context_invoke (hsm_callback scenario_fn (hsm_process_post scenario_fn n)) n
                 (h_context m) ?k w = Some (w', calls)"
      by (simp add: hsm_change_state_def)
    show ?thesis
    proof (cases "g_runs_at_once (h_context m) w")
      case False
      with inv show ?thesis by (auto simp: invoke_queued)
    next
      case True
      show ?thesis
      proof (cases n)
        case 0
        with inv True show ?thesis by (simp add: invoke_at_once)
      next
        case (Suc k)
        with inv True obtain b w2 where
          cb: "hsm_change_state_invoke_cb scenario_fn \<lparr>r_h = hp, r_ns = T\<rparr>
                 (g_enter (h_context m) w) = Some (b, w2, calls)"
          and w': "w' = g_leave (h_context m) w w2"
          by (auto simp: invoke_at_once invoke_loop_change_state_cb bind_eq_Some_conv)
        from cb have "hsm_change_state_internal scenario_fn hp T (g_enter (h_context m) w)
                        = Some (w2, calls)"
          by (auto simp: hsm_change_state_invoke_cb_def bind_eq_Some_conv)
        from change_state_internal_quiet[OF this] w' show ?thesis by simp
      qed
    qed
  qed
qed

lemma redirect_fn_borrows: "handlers_borrow redirect_fn"
proof -
  have "(heap_get (hsms w) q \<noteq> None
          \<longrightarrow> heap_get (hsms (snd (redirect_fn f hp s ev ud w))) q \<noteq> None)
      \<and> (heap_get (events w) e \<noteq> None
          \<longrightarrow> heap_get (events (snd (redirect_fn f hp s ev ud w))) e \<noteq> None)"
    for f hp s ev ud w q e
  proof (cases "f = 1 \<and> hsm_event_get_type (Some ev) w = Some (HsmEventType_val HSM_EVT_EXIT)")
    case False
    then show ?thesis by (auto simp: redirect_fn_def scenario_fn_def)
  next
    case True
    show ?thesis
    proof (cases "hsm_register_state (Some hp) (Some s) None None w")
      case None
      with True show ?thesis by (simp add: redirect_fn_def)
    next
      case (Some w1)
      then obtain m where w1: "w1 = hsm_put hp (m\<lparr>h_states := (h_states m)
                (s \<mapsto> hsm_state_new (Some s) None None)\<rparr>) w"
        by (auto simp: hsm_register_state_def bind_eq_Some_conv)
      have a: "heap_get (hsms w) q \<noteq> None \<Longrightarrow> heap_get (hsms w1) q \<noteq> None"
        unfolding w1 by (rule hsm_put_live)
      have b: "events w1 = events w" unfolding w1 by (simp add: hsm_put_def)
      show ?thesis
      proof (cases "hsm_change_state scenario_fn 1 (Some hp) (Some ''C'') w1")
        case None
        with True Some a b show ?thesis by (simp add: redirect_fn_def)
      next
        case (Some t)
        then obtain w2 calls where t: "hsm_change_state scenario_fn 1 (Some hp) (Some ''C'') w1
                                         = Some (w2, calls)" by (cases t) auto
        from change_state_quiet[OF t] a b
        have "(heap_get (hsms w) q \<noteq> None \<longrightarrow> heap_get (hsms w2) q \<noteq> None)
            \<and> (heap_get (events w) e \<noteq> None \<longrightarrow> heap_get (events w2) e \<noteq> None)"
          by simp
        with True \<open>hsm_register_state (Some hp) (Some s) None None w = Some w1\<close> t
        show ?thesis by (simp add: redirect_fn_def)
      qed
    qed
  qed
  then show ?thesis unfolding handlers_borrow_def by blast
qed

lemma invoke_process_post_cases:
  assumes "g_main_context_invoke (hsm_callback fn (hsm_process_post fn n)) n c
             (Hsm_process_post p) w = Some (wb, nested)"
  shows "(hsms wb = hsms w \<and> events wb = events w)
       \<or> (\<exists>r2 w2. hsm_process_post fn n p (g_enter c w) = Some (r2, w2, nested)
             \<and> wb = g_leave c w w2)"
proof (cases "g_runs_at_once c w")
  case False
  with assms show ?thesis by (auto simp: invoke_queued)
next
  case True
  with assms show ?thesis
    by (auto simp: invoke_at_once invoke_loop_process_post bind_eq_Some_conv)
qed

lemma process_post_quiet:
  "hsm_process_post scenario_fn n p w = Some (r, w', calls) \<Longrightarrow>
     (\<forall>q. heap_get (hsms w) q \<noteq> None \<longrightarrow> heap_get (hsms w') q \<noteq> None)
     \<and> (\<forall>e. e \<noteq> p_ev p \<and> heap_get (events w) e \<noteq> None \<longrightarrow> heap_get (events w') e \<noteq> None)"
proof (induction n arbitrary: p w r w' calls)
  case 0
  then show ?case by simp
next
  case (Suc n)
  let ?inv = "g_main_context_invoke (hsm_callback scenario_fn (hsm_process_post scenario_fn n)) n"
  from Suc.prems obtain h where h: "heap_get (hsms w) (p_h p) = Some h"
    by (auto simp: process_post_unfold split: option.splits)
  have t: "snd (case resolve h of None \<Rightarrow> (False, w)
                | Some (cs, f, ud) \<Rightarrow> scenario_fn f (p_h p) cs (p_ev p) ud w) = w"
    by (auto simp: scenario_fn_def split: option.splits)
  from Suc.prems h t obtain parent nested where
    b: "bubble_step ?inv (p_ev p) parent w = Some (w', nested)"
    by (auto simp: process_post_unfold Let_def bind_eq_Some_conv split: option.splits)
  show ?case
  proof (cases parent)
    case None
    with b have "hsm_event_free (Some (p_ev p)) w = Some w'"
      by (auto simp: bubble_step_def bind_eq_Some_conv)
    then show ?thesis
      by (auto simp: hsm_event_free_def heap_get_free split: option.splits)
  next
    case (Some pp)
    with b obtain e pm wb where
      e: "heap_get (events w) (p_ev p) = Some e"
      and pm: "heap_get (hsms w) pp = Some pm"
      and iv: "?inv (h_context pm) (Hsm_process_post \<lparr>p_h = pp, p_ev = length (events w)\<rparr>)
                 (w\<lparr>events := events w @ [Some e]\<rparr>) = Some (wb, nested)"
      and fr: "hsm_event_free (Some (p_ev p)) wb = Some w'"
      by (auto simp: bubble_step_def hsm_event_new_eq HsmEvent_eta bind_eq_Some_conv)
    let ?wa = "w\<lparr>events := events w @ [Some e]\<rparr>"
    have mid: "(\<forall>q. heap_get (hsms w) q \<noteq> None \<longrightarrow> heap_get (hsms wb) q \<noteq> None)
       \<and> (\<forall>x. heap_get (events w) x \<noteq> None \<longrightarrow> heap_get (events wb) x \<noteq> None)"
    proof -
      from invoke_process_post_cases[OF iv]
      show ?thesis
      proof
        assume "hsms wb = hsms ?wa \<and> events wb = events ?wa"
        then show ?thesis by (auto simp: heap_get_def nth_append split: if_splits)
      next
        assume "\<exists>r2 w2. hsm_process_post scenario_fn n \<lparr>p_h = pp, p_ev = length (events w)\<rparr>
                          (g_enter (h_context pm) ?wa) = Some (r2, w2, nested)
                   \<and> wb = g_leave (h_context pm) ?wa w2"
        then obtain r2 w2 where
          n: "hsm_process_post scenario_fn n \<lparr>p_h = pp, p_ev = length (events w)\<rparr>
                          (g_enter (h_context pm) ?wa) = Some (r2, w2, nested)"
          and wb: "wb = g_leave (h_context pm) ?wa w2" by blast
        note ih = Suc.IH[OF n]
        have "\<And>x. heap_get (events w) x \<noteq> None \<Longrightarrow> heap_get (events w2) x \<noteq> None"
        proof -
          fix x assume x: "heap_get (events w) x \<noteq> None"
          then have "x \<noteq> length (events w)" by (auto simp: heap_get_def split: if_splits)
          moreover from x have "heap_get (events ?wa) x \<noteq> None"
            by (auto simp: heap_get_def nth_append split: if_splits)
          ultimately show "heap_get (events w2) x \<noteq> None" using ih by simp
        qed
        with ih wb show ?thesis by simp
      qed
    qed
    from fr have "hsms w' = hsms wb"
      "\<And>x. x \<noteq> p_ev p \<Longrightarrow> heap_get (events w') x = heap_get (events wb) x"
      by (auto simp: hsm_event_free_def heap_get_free split: option.splits)
    with mid show ?thesis by simp
  qed
qed

lemma posting_fn_borrows: "handlers_borrow posting_fn"
proof -
  have "(heap_get (hsms w) q \<noteq> None
          \<longrightarrow> heap_get (hsms (snd (posting_fn f hp s ev ud w))) q \<noteq> None)
      \<and> (heap_get (events w) e \<noteq> None
          \<longrightarrow> heap_get (events (snd (posting_fn f hp s ev ud w))) e \<noteq> None)"
    for f hp s ev ud w q e
  proof (cases "f = 1 \<and> hsm_event_get_type (Some ev) w = Some (HsmEventType_val HSM_EVT_EXIT)")
    case False
    then show ?thesis by (auto simp: posting_fn_def scenario_fn_def)
  next
    case True
    let ?p = "length (events w)"
    let ?w1 = "w\<lparr>events := events w @ [Some \<lparr>ev_type = HSM_EVT_STEP, ev_name = Some ''late'',
                   ev_source = Some ''child'', ev_seq = 0, ev_data = None\<rparr>]\<rparr>"
    have old: "heap_get (events w) e \<noteq> None \<Longrightarrow> heap_get (events ?w1) e \<noteq> None \<and> e \<noteq> ?p"
      by (auto simp: heap_get_def nth_append split: if_splits)
    show ?thesis
    proof (cases "hsm_post_event scenario_fn 2 (Some hp) (Some ?p) ?w1")
      case None
      with True old show ?thesis by (simp add: posting_fn_def hsm_event_new_eq)
    next
      case (Some t)
      then obtain w2 calls where t: "hsm_post_event scenario_fn 2 (Some hp) (Some ?p) ?w1
                                       = Some (w2, calls)" by (cases t) auto
      then obtain m :: Hsm where
        iv: "g_main_context_invoke (hsm_callback scenario_fn (hsm_process_post scenario_fn 2)) 2
               (h_context m) (Hsm_process_post \<lparr>p_h = hp, p_ev = ?p\<rparr>) ?w1 = Some (w2, calls)"
        by (auto simp: hsm_post_event_def bind_eq_Some_conv)
      have "(heap_get (hsms w) q \<noteq> None \<longrightarrow> heap_get (hsms w2) q \<noteq> None)
          \<and> (heap_get (events w) e \<noteq> None \<longrightarrow> heap_get (events w2) e \<noteq> None)"
        using invoke_process_post_cases[OF iv]
      proof
        assume "hsms w2 = hsms ?w1 \<and> events w2 = events ?w1"
        with old show ?thesis by simp
      next
        assume "\<exists>r2 w3. hsm_process_post scenario_fn 2 \<lparr>p_h = hp, p_ev = ?p\<rparr>
                          (g_enter (h_context m) ?w1) = Some (r2, w3, calls)
                   \<and> w2 = g_leave (h_context m) ?w1 w3"
        then obtain r2 w3 where
          n: "hsm_process_post scenario_fn 2 \<lparr>p_h = hp, p_ev = ?p\<rparr>
                          (g_enter (h_context m) ?w1) = Some (r2, w3, calls)"
          and w2: "w2 = g_leave (h_context m) ?w1 w3" by blast
        from process_post_quiet[OF n] old w2 show ?thesis by simp
      qed
      with True t show ?thesis by (simp add: posting_fn_def hsm_event_new_eq)
    qed
  qed
  then show ?thesis unfolding handlers_borrow_def by blast
qed


text \<open>An event posted while \<open>EXIT\<close> is handled is dispatched there and then as well: the
  thread owns the context, so \<open>g_main_context_invoke\<close> calls \<open>hsm_process_post\<close> before
  \<open>hsm_post_event\<close> returns, and the handler of the old state is invoked with the posted
  event, at address 2, before \<open>B\<close> is entered. (It declines the event, whose copy for the
  root is left on the root's context.)\<close>

lemma post_during_exit_runs_at_once:
  "\<exists>w' wa wb wp w2 copy.
     hsm_change_state_internal posting_fn 1 ''B'' scenario
       = Some (w', [Invoke 1 1 ''A'' 1 None wa, Invoke 2 1 ''B'' 4 (Some 5) wb])
     \<and> heap_get (events wa) 1 = Some (synthesized HSM_EVT_EXIT (Some ''child''))
     \<and> hsm_event_new HSM_EVT_STEP (Some ''late'') None (Some ''child'') 0 wa = (2, wp)
     \<and> hsm_post_event posting_fn (Suc (Suc 0)) (Some 1) (Some 2) wp
          = Some (w2, [Invoke 1 1 ''A'' 2 None wp])
     \<and> posting_fn 1 1 ''A'' 1 None wa = (True, w2)
     \<and> heap_get (events w2) 2 = None
     \<and> glib w2 = [G_main_context_invoke 1 (Hsm_process_post \<lparr>p_h = 0, p_ev = copy\<rparr>)]
     \<and> heap_get (events wb) 4 = Some (synthesized HSM_EVT_ENTRY (Some ''child''))"
  by (simp add: hsm_eval reentrant_eval synthesized_def numeral_2_eq_2)

subsection \<open>The dispatch of an event\<close>



subsection \<open>A transition to the current state\<close>

text \<open>
  C7. A transition of a live machine to the state it is in does nothing: the internal
  transition returns the world as it was and has invoked no handler (so no \<open>EXIT\<close> or
  \<open>ENTRY\<close> event was synthesized and \<open>current_state\<close> is unchanged), and so does
  \<open>hsm_change_state\<close> called where the machine's context is the thread-default context,
  and so does the callback \<open>hsm_change_state_invoke_cb\<close>. Called from elsewhere,
  \<open>hsm_change_state\<close> hands the request to \<open>g_main_context_invoke\<close>: where GLib runs it
  at once, the call returns the world as it was and no handler was invoked; where GLib
  leaves it on the machine's context, neither machine nor event is touched, and the
  callback that later runs the request returns the world as it finds it.
\<close>

theorem change_state_same_state_noop:
  assumes live: "heap_get (hsms w) hp = Some h"
      and same: "h_current_state h = Some T"
  shows "hsm_change_state_internal fn hp T w = Some (w, [])
     \<and> (g_main_context_get_thread_default w = Some (h_context h) \<longrightarrow>
          hsm_change_state fn n (Some hp) (Some T) w = Some (w, []))
     \<and> hsm_change_state_invoke_cb fn \<lparr>r_h = hp, r_ns = T\<rparr> w = Some (G_SOURCE_REMOVE, w, [])
     \<and> (g_main_context_get_thread_default w \<noteq> Some (h_context h) \<longrightarrow>
          (if g_runs_at_once (h_context h) w
           then hsm_change_state fn (Suc n) (Some hp) (Some T) w = Some (w, [])
           else (\<exists>w'. hsm_change_state fn n (Some hp) (Some T) w = Some (w', [])
                   \<and> hsms w' = hsms w
                   \<and> events w' = events w
                   \<and> glib w' = glib w @ [G_main_context_invoke (h_context h)
                                            (Hsm_change_state_invoke_cb \<lparr>r_h = hp, r_ns = T\<rparr>)]
                   \<and> hsm_change_state_invoke_cb fn \<lparr>r_h = hp, r_ns = T\<rparr> w'
                        = Some (G_SOURCE_REMOVE, w', []))))"
proof -
  have int: "\<And>w0. heap_get (hsms w0) hp = Some h \<Longrightarrow>
                hsm_change_state_internal fn hp T w0 = Some (w0, [])"
    using same by (simp add: hsm_change_state_internal_def g_strcmp0_eq_0_iff)
  have cb: "\<And>w0. heap_get (hsms w0) hp = Some h \<Longrightarrow>
                hsm_change_state_invoke_cb fn \<lparr>r_h = hp, r_ns = T\<rparr> w0
                  = Some (G_SOURCE_REMOVE, w0, [])"
    by (simp add: hsm_change_state_invoke_cb_def int)
  have on_ctx: "g_main_context_get_thread_default w = Some (h_context h) \<Longrightarrow>
          hsm_change_state fn n (Some hp) (Some T) w = Some (w, [])"
    using live by (simp add: hsm_change_state_def int)
  have enter: "heap_get (hsms (g_enter (h_context h) w)) hp = Some h"
    using live
    by (auto simp: g_enter_def g_main_context_acquire_def split: option.splits)
  have undo: "g_runs_at_once (h_context h) w \<Longrightarrow>
                g_leave (h_context h) w (g_enter (h_context h) w) = w"
    by (auto simp: g_runs_at_once_def g_leave_def g_enter_def g_main_context_acquire_def
        g_main_context_release_def g_main_context_is_owner_def fun_upd_idem
        split: option.splits)
  have off_ctx: "if g_runs_at_once (h_context h) w
           then hsm_change_state fn (Suc n) (Some hp) (Some T) w = Some (w, [])
           else (\<exists>w'. hsm_change_state fn n (Some hp) (Some T) w = Some (w', [])
                   \<and> hsms w' = hsms w
                   \<and> events w' = events w
                   \<and> glib w' = glib w @ [G_main_context_invoke (h_context h)
                                            (Hsm_change_state_invoke_cb \<lparr>r_h = hp, r_ns = T\<rparr>)]
                   \<and> hsm_change_state_invoke_cb fn \<lparr>r_h = hp, r_ns = T\<rparr> w'
                        = Some (G_SOURCE_REMOVE, w', []))"
    if ne: "g_main_context_get_thread_default w \<noteq> Some (h_context h)"
  proof (cases "g_runs_at_once (h_context h) w")
    case True
    have "hsm_change_state fn (Suc n) (Some hp) (Some T) w = Some (w, [])"
      using live ne undo[OF True]
      by (simp add: hsm_change_state_def invoke_at_once[OF True] invoke_loop_change_state_cb
          cb[OF enter])
    with True show ?thesis by simp
  next
    case False
    let ?w' = "w\<lparr>glib := glib w @ [G_main_context_invoke (h_context h)
                                     (Hsm_change_state_invoke_cb \<lparr>r_h = hp, r_ns = T\<rparr>)]\<rparr>"
    have l': "heap_get (hsms ?w') hp = Some h" using live by simp
    have "hsm_change_state fn n (Some hp) (Some T) w = Some (?w', [])"
      using live ne by (simp add: hsm_change_state_def invoke_queued[OF False])
    with False cb[OF l'] show ?thesis by simp
  qed
  from int[OF live] on_ctx cb[OF live] off_ctx show ?thesis by blast
qed

theorem change_state_same_state_noop_witness:
  "hsm_change_state_internal scenario_fn 1 ''A'' scenario = Some (scenario, [])
   \<and> hsm_change_state scenario_fn 0 (Some 1) (Some ''A'') scenario = Some (scenario, [])
   \<and> hsm_change_state_invoke_cb scenario_fn \<lparr>r_h = 1, r_ns = ''A''\<rparr> scenario
        = Some (G_SOURCE_REMOVE, scenario, [])
   \<and> hsm_change_state scenario_fn (Suc 0) (Some 1) (Some ''A'') shared_scenario
        = Some (shared_scenario, [])
   \<and> (\<exists>w'. hsm_change_state scenario_fn 0 (Some 0) (Some ''r'') scenario = Some (w', [])
         \<and> glib w' = [G_main_context_invoke 1
                         (Hsm_change_state_invoke_cb \<lparr>r_h = 0, r_ns = ''r''\<rparr>)])"
proof -
  have a: "heap_get (hsms scenario) 1 = Some child_machine"
    by (simp add: scenario_def heap_get_def)
  have b: "h_current_state child_machine = Some ''A''"
    and c: "h_context child_machine = 2"
    by (simp_all add: child_machine_def)
  have td: "g_main_context_get_thread_default scenario = Some 2"
    by (simp add: g_main_context_get_thread_default_def scenario_def)
  note th = change_state_same_state_noop[OF a b, of scenario_fn 0]
  from th td have first:
    "hsm_change_state_internal scenario_fn 1 ''A'' scenario = Some (scenario, [])
     \<and> hsm_change_state scenario_fn 0 (Some 1) (Some ''A'') scenario = Some (scenario, [])
     \<and> hsm_change_state_invoke_cb scenario_fn \<lparr>r_h = 1, r_ns = ''A''\<rparr> scenario
          = Some (G_SOURCE_REMOVE, scenario, [])"
    unfolding c by blast
  \<comment> \<open>on the shared context the request is run at once\<close>
  let ?child = "child_machine\<lparr>h_context := 0,
                 h_loop := Some \<lparr>loop_context = 0, loop_is_running = True\<rparr>\<rparr>"
  have sa: "heap_get (hsms shared_scenario) 1 = Some ?child"
    by (simp add: shared_scenario_def heap_get_def)
  have sb: "h_current_state ?child = Some ''A''" by (simp add: child_machine_def)
  have sc: "h_context ?child = 0" by simp
  have std: "g_main_context_get_thread_default shared_scenario \<noteq> Some 0"
    by (simp add: g_main_context_get_thread_default_def shared_scenario_def)
  have sq: "g_runs_at_once 0 shared_scenario"
    by (simp add: g_runs_at_once_def g_main_context_is_owner_def shared_scenario_def
        scenario_def)
  note th2 = change_state_same_state_noop[OF sa sb, of scenario_fn 0]
  from th2[THEN conjunct2, THEN conjunct2, THEN conjunct2, unfolded sc, THEN mp, OF std] sq
  have second: "hsm_change_state scenario_fn (Suc 0) (Some 1) (Some ''A'') shared_scenario
        = Some (shared_scenario, [])"
    by simp
  \<comment> \<open>from the child's thread, a request for the root is queued\<close>
  have ra: "heap_get (hsms scenario) 0 = Some root_machine"
    by (simp add: scenario_def heap_get_def)
  have rb: "h_current_state root_machine = Some ''r''"
    and rc: "h_context root_machine = 1"
    by (simp_all add: root_machine_def)
  have rtd: "g_main_context_get_thread_default scenario \<noteq> Some 1"
    by (simp add: td)
  have rq: "\<not> g_runs_at_once 1 scenario"
    by (simp add: g_runs_at_once_def g_main_context_is_owner_def
        g_main_context_get_thread_default_def scenario_def)
  have g: "glib scenario = []" by (simp add: scenario_def)
  note th3 = change_state_same_state_noop[OF ra rb, of scenario_fn 0]
  from th3[THEN conjunct2, THEN conjunct2, THEN conjunct2, unfolded rc, THEN mp, OF rtd] rq
  have third: "\<exists>w'. hsm_change_state scenario_fn 0 (Some 0) (Some ''r'') scenario = Some (w', [])
         \<and> glib w' = [G_main_context_invoke 1
                         (Hsm_change_state_invoke_cb \<lparr>r_h = 0, r_ns = ''r''\<rparr>)]"
    by (auto simp: g)
  from first second third show ?thesis by blast
qed

subsection \<open>Timers\<close>

text \<open>What \<open>hsm_schedule_timer\<close> does to a live machine: it increments the counter, and the
  new value is the id it records (with a new timeout source that carries the duration,
  the machine and the id, attached to the machine's context) and returns.\<close>

lemma schedule_timer_live:
  assumes live: "heap_get (hsms w) hp = Some m"
  defines "tid \<equiv> h_next_timer_id m + 1"
  defines "src \<equiv> length (sources w)"
  shows "hsm_schedule_timer (Some hp) ms w =
     Some (tid,
       w\<lparr>hsms := heap_set (hsms w) hp
                   (m\<lparr>h_next_timer_id := tid, h_timers := (h_timers m)(tid \<mapsto> src)\<rparr>),
         sources := sources w @
           [Some \<lparr>src_interval = ms, src_callback = Some \<lparr>t_h = hp, t_timer_id = tid\<rparr>,
                  src_context = Some (h_context m)\<rparr>]\<rparr>)"
  using live
  by (auto simp: hsm_schedule_timer_def tid_def src_def Let_def hsm_put_def
      g_timeout_source_new_def heap_new_def g_source_set_callback_def g_source_attach_def
      heap_get_def heap_set_def nth_append split: if_splits)

text \<open>Scheduling alone drives the counter to any value: \<open>n\<close> calls add \<open>n\<close> to it.\<close>

lemma schedule_timers_run:
  "heap_get (hsms w) hp = Some m \<Longrightarrow>
     \<exists>ids w' m'. hsm_schedule_timers n hp ms w = Some (ids, w')
        \<and> heap_get (hsms w') hp = Some m'
        \<and> h_next_timer_id m' = h_next_timer_id m + of_nat n"
proof (induction n arbitrary: w m)
  case 0
  then show ?case by simp
next
  case (Suc n)
  let ?tid = "h_next_timer_id m + 1"
  let ?m1 = "m\<lparr>h_next_timer_id := ?tid, h_timers := (h_timers m)(?tid \<mapsto> length (sources w))\<rparr>"
  from schedule_timer_live[OF Suc.prems, of ms]
  obtain w1 where s: "hsm_schedule_timer (Some hp) ms w = Some (?tid, w1)"
    and l1: "heap_get (hsms w1) hp = Some ?m1"
    using Suc.prems by (auto simp: heap_get_def heap_set_def split: if_splits)
  from Suc.IH[OF l1] obtain ids w' m' where
    r: "hsm_schedule_timers n hp ms w1 = Some (ids, w')"
    "heap_get (hsms w') hp = Some m'"
    "h_next_timer_id m' = h_next_timer_id ?m1 + of_nat n"
    by blast
  show ?case
    apply (rule_tac x = "?tid # ids" in exI)
    apply (rule_tac x = w' in exI)
    apply (rule_tac x = m' in exI)
    using s r
    apply (simp add: add.assoc add.commute)
    done
qed

lemma worn_counter_reachable:
  "\<exists>ids w' m'. hsm_schedule_timers 2147483645 1 ms scenario = Some (ids, w')
      \<and> heap_get (hsms w') 1 = Some m'
      \<and> h_next_timer_id m' = 2147483646"
proof -
  have a: "heap_get (hsms scenario) 1 = Some child_machine"
    by (simp add: scenario_def heap_get_def)
  have c: "h_next_timer_id child_machine + of_nat 2147483645 = 2147483646"
    by (simp add: child_machine_def)
  from schedule_timers_run[OF a, of 2147483645 ms]
  show ?thesis unfolding c .
qed

lemma int_max_reachable:
  "\<exists>ids w' m'. hsm_schedule_timers 2147483646 1 ms scenario = Some (ids, w')
      \<and> heap_get (hsms w') 1 = Some m'
      \<and> h_next_timer_id m' = 2147483647"
proof -
  have a: "heap_get (hsms scenario) 1 = Some child_machine"
    by (simp add: scenario_def heap_get_def)
  have c: "h_next_timer_id child_machine + of_nat 2147483646 = 2147483647"
    by (simp add: child_machine_def)
  from schedule_timers_run[OF a, of 2147483646 ms]
  show ?thesis unfolding c .
qed

lemma schedule_timer_counter:
  assumes live: "heap_get (hsms w) hp = Some m"
  shows "\<exists>w1 m1. hsm_schedule_timer (Some hp) ms w = Some (h_next_timer_id m + 1, w1)
           \<and> heap_get (hsms w1) hp = Some m1
           \<and> h_next_timer_id m1 = h_next_timer_id m + 1"
  using schedule_timer_live[OF live, of ms] live
  by (auto simp: heap_get_def heap_set_def split: if_splits)

text \<open>A machine as \<open>hsm_new\<close> leaves it, counter at 1, on which 2147483646 timers have been
  scheduled, returns \<open>INT_MIN\<close> for the next one.\<close>

lemma schedule_timer_wraps_when_reached:
  "\<exists>ids w'. hsm_schedule_timers 2147483646 1 ms scenario = Some (ids, w')
      \<and> map_option (sint \<circ> fst) (hsm_schedule_timer (Some 1) ms w') = Some (- 2147483648)"
proof -
  from int_max_reachable[of ms] obtain ids w' m' where
    r: "hsm_schedule_timers 2147483646 1 ms scenario = Some (ids, w')"
    and l: "heap_get (hsms w') 1 = Some m'"
    and c: "h_next_timer_id m' = 2147483647" by blast
  from schedule_timer_counter[OF l, of ms] c
  have "map_option (sint \<circ> fst) (hsm_schedule_timer (Some 1) ms w') = Some (- 2147483648)"
    by auto
  with r show ?thesis by blast
qed

text \<open>When the timer of the scenario comes due, the callback posts the \<open>TIMEOUT\<close> event
  before it removes the entry of the timer, and the thread owns the context: the handler
  of the current state is invoked with the event (name \<open>TIMER_EXPIRED\<close>, the machine's
  name as source, the id as sequence number, no data) while the id still has its entry
  in the timer table. The handler declines, so a copy is left on the root's context; then
  the entry is removed and the source destroyed.\<close>

lemma timeout_dispatched_inside_callback:
  "\<exists>w' wt copy.
     g_timeout_dispatch scenario_fn (Suc (Suc 0)) 0 timer_scenario
       = Some (w', [Invoke 1 1 ''A'' 1 None wt])
     \<and> heap_get (events wt) 1
          = Some \<lparr>ev_type = HSM_EVT_TIMEOUT, ev_name = Some ''TIMER_EXPIRED'',
                  ev_source = Some ''child'', ev_seq = 2, ev_data = None\<rparr>
     \<and> map_option (\<lambda>m. h_timers m 2) (heap_get (hsms wt) 1) = Some (Some 0)
     \<and> map_option (\<lambda>m. h_timers m 2) (heap_get (hsms w') 1) = Some None
     \<and> heap_get (sources w') 0 = None
     \<and> heap_get (events w') 1 = None
     \<and> glib w' = [G_main_context_invoke 1 (Hsm_process_post \<lparr>p_h = 0, p_ev = copy\<rparr>)]"
  by (simp add: hsm_eval timer_scenario_def)

text \<open>
  C3 does not hold of the code where the timer counter stands at \<open>INT_MAX\<close>:
  \<open>hsm_schedule_timer\<close> increments \<open>next_timer_id\<close>, a \<open>gint\<close>, without any check; the
  increment wraps (C leaves it undefined), and the id that is minted, recorded and
  returned is \<open>INT_MIN = -2147483648\<close>, not a positive integer. hsm.h documents the result
  as a positive timer id, and the examples test \<open>timer > 0\<close>. In the scenario with the
  child's counter at 2147483647, where scheduling alone takes it (\<open>int_max_reachable\<close>,
  \<open>schedule_timer_wraps_when_reached\<close>):
\<close>

theorem schedule_timer_at_int_max:
  "map_option (sint \<circ> fst) (hsm_schedule_timer (Some 1) 200 (worn_scenario 2147483647))
     = Some (- 2147483648)"
proof -
  have a: "heap_get (hsms (worn_scenario 2147483647)) 1
             = Some (child_machine\<lparr>h_next_timer_id := 2147483647\<rparr>)"
    by (simp add: worn_scenario_def heap_get_def)
  show ?thesis
    by (subst schedule_timer_live[OF a]) simp
qed

text \<open>
  C4. For a live machine whose timer table names live sources, \<open>hsm_cancel_timer\<close>
  returns true exactly when the id has an entry in the table. Then the source of the
  entry is destroyed, so that GLib cannot dispatch it, and the entry is removed; no other
  source, no other field of the machine, no other machine, no event and no request to
  GLib is touched. When the id has no entry, the call returns false and leaves the world
  as it was.
\<close>

theorem cancel_timer_iff_present:
  assumes live: "heap_get (hsms w) hp = Some m"
      and wf: "\<forall>src. h_timers m tid = Some src \<longrightarrow> heap_get (sources w) src \<noteq> None"
  shows "\<exists>b w'. hsm_cancel_timer (Some hp) tid w = Some (b, w')
     \<and> (b \<longleftrightarrow> tid \<in> dom (h_timers m))
     \<and> (case h_timers m tid of
          None \<Rightarrow> \<not> b \<and> w' = w
        | Some src \<Rightarrow> b
            \<and> heap_get (sources w') src = None
            \<and> g_timeout_dispatch fn n src w' = None
            \<and> heap_get (hsms w') hp = Some (m\<lparr>h_timers := (h_timers m)(tid := None)\<rparr>)
            \<and> events w' = events w
            \<and> glib w' = glib w
            \<and> (\<forall>q. q \<noteq> src \<longrightarrow> heap_get (sources w') q = heap_get (sources w) q)
            \<and> (\<forall>q. q \<noteq> hp \<longrightarrow> heap_get (hsms w') q = heap_get (hsms w) q))"
proof (cases "h_timers m tid")
  case None
  with live have "hsm_cancel_timer (Some hp) tid w = Some (False, w)"
    by (simp add: hsm_cancel_timer_def)
  with None show ?thesis by (auto simp: dom_def)
next
  case (Some src)
  with wf obtain s where s: "heap_get (sources w) src = Some s" by auto
  let ?w1 = "w\<lparr>sources := heap_free (sources w) src\<rparr>"
  let ?w' = "hsm_put hp (m\<lparr>h_timers := (h_timers m)(tid := None)\<rparr>) ?w1"
  have run: "hsm_cancel_timer (Some hp) tid w = Some (True, ?w')"
    using live Some s by (simp add: hsm_cancel_timer_def g_source_destroy_def)
  have gone: "heap_get (sources ?w') src = None"
    by (simp add: hsm_put_def heap_get_free)
  then have nofire: "g_timeout_dispatch fn n src ?w' = None"
    by (simp add: g_timeout_dispatch_def)
  have m': "heap_get (hsms ?w') hp = Some (m\<lparr>h_timers := (h_timers m)(tid := None)\<rparr>)"
    using live by (auto simp: hsm_put_def heap_get_def heap_set_def split: if_splits)
  have frame: "events ?w' = events w" "glib ?w' = glib w"
      "\<forall>q. q \<noteq> src \<longrightarrow> heap_get (sources ?w') q = heap_get (sources w) q"
      "\<forall>q. q \<noteq> hp \<longrightarrow> heap_get (hsms ?w') q = heap_get (hsms w) q"
    by (auto simp: hsm_put_def heap_get_def heap_set_def heap_free_def)
  show ?thesis
    apply (rule_tac x = True in exI)
    apply (rule_tac x = ?w' in exI)
    using run Some gone nofire m' frame
    apply (simp add: dom_def)
    done
qed

theorem cancel_timer_iff_present_witness:
  "(\<exists>w'. hsm_cancel_timer (Some 1) 2 timer_scenario = Some (True, w')
          \<and> heap_get (sources w') 0 = None
          \<and> g_timeout_dispatch scenario_fn (Suc 0) 0 w' = None)
   \<and> hsm_cancel_timer (Some 1) 3 timer_scenario = Some (False, timer_scenario)"
proof -
  let ?m = "child_machine\<lparr>h_next_timer_id := 2, h_timers := [2 \<mapsto> 0]\<rparr>"
  have l: "heap_get (hsms timer_scenario) 1 = Some ?m"
    by (simp add: timer_scenario_def heap_get_def)
  have wf2: "\<forall>src. h_timers ?m 2 = Some src \<longrightarrow> heap_get (sources timer_scenario) src \<noteq> None"
    by (simp add: timer_scenario_def heap_get_def)
  have wf3: "\<forall>src. h_timers ?m 3 = Some src \<longrightarrow> heap_get (sources timer_scenario) src \<noteq> None"
    by simp
  have t2: "h_timers ?m 2 = Some 0" and t3: "h_timers ?m 3 = None" by simp_all
  from cancel_timer_iff_present[OF l wf2, of scenario_fn "Suc 0"]
       cancel_timer_iff_present[OF l wf3, of scenario_fn "Suc 0"]
  show ?thesis unfolding t2 t3 by auto
qed

subsection \<open>Timer ids over the lifetime of a machine\<close>

text \<open>With 2147483645 timers scheduled on the machine, the next two ids are \<open>INT_MAX\<close> and
  \<open>INT_MIN\<close>.\<close>

lemma timer_ids_wrap_when_reached:
  "\<exists>ids w'. hsm_schedule_timers 2147483645 1 ms scenario = Some (ids, w')
      \<and> do {
           (id1, w1) \<leftarrow> hsm_schedule_timer (Some 1) ms w';
           (id2, w2) \<leftarrow> hsm_schedule_timer (Some 1) ms w1;
           Some [sint id1, sint id2]
         } = Some [2147483647, - 2147483648]"
proof -
  from worn_counter_reachable[of ms] obtain ids w' m' where
    r: "hsm_schedule_timers 2147483645 1 ms scenario = Some (ids, w')"
    and l: "heap_get (hsms w') 1 = Some m'"
    and c: "h_next_timer_id m' = 2147483646" by blast
  from schedule_timer_counter[OF l, of ms] c obtain w1 m1 where
    s1: "hsm_schedule_timer (Some 1) ms w' = Some (2147483647, w1)"
    and l1: "heap_get (hsms w1) 1 = Some m1"
    and c1: "h_next_timer_id m1 = 2147483647" by auto
  from schedule_timer_counter[OF l1, of ms] c1 obtain w2 where
    s2: "hsm_schedule_timer (Some 1) ms w1 = Some (- 2147483648, w2)" by auto
  from r s1 s2 show ?thesis by simp
qed

text \<open>
  C5 does not hold of the code over the whole lifetime of a machine: the ids are the
  successive values of a 32-bit counter that nothing bounds. With the counter one below
  \<open>INT_MAX\<close>, where scheduling alone takes it (\<open>timer_ids_wrap_when_reached\<close>), two successive
  calls of \<open>hsm_schedule_timer\<close> return \<open>INT_MAX\<close> and then \<open>INT_MIN\<close>: the sequence of ids
  is not increasing, against the positive ids that hsm.h documents.
\<close>

theorem timer_ids_wrap:
  "do {
     (id1, w1) \<leftarrow> hsm_schedule_timer (Some 1) 200 (worn_scenario 2147483646);
     (id2, w2) \<leftarrow> hsm_schedule_timer (Some 1) 200 w1;
     Some [sint id1, sint id2]
   } = Some [2147483647, - 2147483648]
   \<and> \<not> sorted_wrt (<) [2147483647, - 2147483648 :: int]"
  by (simp add: hsm_eval worn_scenario_def)

subsection \<open>A state registered with a null handler\<close>


lemma register_state_live:
  "heap_get (hsms w0) hp = Some h0 \<Longrightarrow>
     hsm_register_state (Some hp) (Some X) f ud w0
       = Some (hsm_put hp (h0\<lparr>h_states := (h_states h0)
                 (X \<mapsto> \<lparr>st_name = Some X, st_handler = f, st_user_data = ud\<rparr>)\<rparr>) w0)"
  by (simp add: hsm_register_state_def hsm_state_new_def)

lemma exit_step_keeps_state:
  assumes live: "heap_get (hsms w) hp = Some h"
      and keep: "handlers_keep_state fn hp X"
      and step: "exit_step fn hp h w = Some (w1, exits)"
      and live1: "heap_get (hsms w1) hp = Some h1"
  shows "h_states h1 X = h_states h X"
proof (cases "resolve h")
  case None
  then have "exit_step fn hp h w = Some (w, [])"
    by (auto simp: exit_step_def resolve_def split: option.splits)
  with step live live1 show ?thesis by simp
next
  case (Some t)
  then obtain S f ud where t: "resolve h = Some (S, f, ud)" by (cases t) auto
  then obtain old where o: "h_current_state h = Some S" "h_states h S = Some old"
      "st_handler old = Some f" "st_user_data old = ud"
    by (auto simp: resolve_def split: option.splits)
  let ?ev = "fst (hsm_event_new HSM_EVT_EXIT None None (h_name h) 0 w)"
  let ?wa = "snd (hsm_event_new HSM_EVT_EXIT None None (h_name h) 0 w)"
  have la: "heap_get (hsms ?wa) hp = Some h"
    using live by (simp add: hsm_event_new_snd)
  from step o have "hsm_event_free (Some ?ev) (snd (fn f hp S ?ev ud ?wa)) = Some w1"
    by (auto simp: exit_step_def split_beta Let_def bind_eq_Some_conv)
  then have "hsms w1 = hsms (snd (fn f hp S ?ev ud ?wa))"
    by (auto dest: hsm_event_free_frame)
  moreover from keep la obtain m' where
    "heap_get (hsms (snd (fn f hp S ?ev ud ?wa))) hp = Some m'" "h_states m' X = h_states h X"
    unfolding handlers_keep_state_def by blast
  ultimately show ?thesis using live1 by simp
qed

text \<open>
  C10. Registering a state \<open>X\<close> with a null handler on a live machine succeeds and puts
  the entry into the registry. Whenever the registry of a live machine holds \<open>X\<close> with a
  null handler (handlers keeping the contract and leaving that entry alone): while \<open>X\<close> is
  current the machine resolves to no handler, so that dispatching a live event invokes no
  handler of the machine; the event is then freed at once if the machine has no parent,
  and otherwise one copy of it is handed to \<open>g_main_context_invoke\<close> for the parent's
  context, which leaves it there as a request or, on a thread that owns that context,
  runs the parent's dispatch of the copy at once, and the event is freed after that;
  a transition from \<open>X\<close> to another state \<open>T\<close> invokes no handler for \<open>EXIT\<close>, commits \<open>T\<close>
  and makes the \<open>ENTRY\<close> invocation of \<open>T\<close> if \<open>T\<close> resolves; and a transition from
  another state into \<open>X\<close> makes the \<open>EXIT\<close> invocation of the old state if it resolves,
  no invocation for \<open>ENTRY\<close>, and leaves \<open>X\<close> current.
\<close>

theorem null_handler_state:
  assumes live: "heap_get (hsms w) hp = Some h"
      and reg: "h_states h X = Some st"
      and null: "st_handler st = None"
      and borrow: "handlers_borrow fn"
      and keep: "handlers_keep_state fn hp X"
  shows
   "(\<forall>w0 h0 ud. heap_get (hsms w0) hp = Some h0 \<longrightarrow>
        (\<exists>w1. hsm_register_state (Some hp) (Some X) None ud w0 = Some w1
            \<and> heap_get (hsms w1) hp
                = Some (h0\<lparr>h_states := (h_states h0)
                          (X \<mapsto> \<lparr>st_name = Some X, st_handler = None, st_user_data = ud\<rparr>)\<rparr>)))
    \<and> (h_current_state h = Some X \<longrightarrow>
         resolve h = None
         \<and> (\<forall>ev e. heap_get (events w) ev = Some e
                  \<and> (\<forall>pp. h_parent h = Some pp \<longrightarrow> heap_get (hsms w) pp \<noteq> None) \<longrightarrow>
             (case h_parent h of
                None \<Rightarrow>
                  (\<exists>w'. hsm_process_post fn (Suc n) \<lparr>p_h = hp, p_ev = ev\<rparr> w
                           = Some (G_SOURCE_REMOVE, w', [])
                     \<and> heap_get (events w') ev = None
                     \<and> glib w' = glib w)
              | Some pp \<Rightarrow>
                  (\<exists>copy pm wa. heap_get (hsms w) pp = Some pm
                     \<and> copy \<noteq> ev
                     \<and> wa = w\<lparr>events := events w @ [Some e]\<rparr>
                     \<and> heap_get (events wa) copy = Some e
                     \<and> (if g_runs_at_once (h_context pm) wa
                        then hsm_process_post fn (Suc n) \<lparr>p_h = hp, p_ev = ev\<rparr> w
                             = hsm_process_post fn n \<lparr>p_h = pp, p_ev = copy\<rparr>
                                 (g_enter (h_context pm) wa)
                               \<bind> (\<lambda>(r2, w2, nested).
                                     hsm_event_free (Some ev) (g_leave (h_context pm) wa w2)
                                     \<bind> (\<lambda>w3. Some (G_SOURCE_REMOVE, w3, nested)))
                        else (\<exists>w'. hsm_process_post fn (Suc n) \<lparr>p_h = hp, p_ev = ev\<rparr> w
                                      = Some (G_SOURCE_REMOVE, w', [])
                                \<and> heap_get (events w') ev = None
                                \<and> heap_get (events w') copy = Some e
                                \<and> glib w' = glib w @ [G_main_context_invoke (h_context pm)
                                                        (Hsm_process_post
                                                           \<lparr>p_h = pp, p_ev = copy\<rparr>)]))))
             \<and> (\<forall>r w' calls. hsm_process_post fn (Suc n) \<lparr>p_h = hp, p_ev = ev\<rparr> w
                               = Some (r, w', calls)
                   \<longrightarrow> r = G_SOURCE_REMOVE \<and> heap_get (events w') ev = None))
         \<and> (\<forall>T. T \<noteq> X \<longrightarrow>
             (\<exists>w' calls. hsm_change_state_internal fn hp T w = Some (w', calls)
                 \<and> (case resolve (h\<lparr>h_current_state := Some T\<rparr>) of
                      None \<Rightarrow> calls = []
                        \<and> heap_get (hsms w') hp = Some (h\<lparr>h_current_state := Some T\<rparr>)
                    | Some (S', f, ud) \<Rightarrow>
                        (\<exists>ev wb. calls = [Invoke f hp T ev ud wb]
                           \<and> heap_get (events wb) ev = Some (synthesized HSM_EVT_ENTRY (h_name h))
                           \<and> heap_get (hsms wb) hp = Some (h\<lparr>h_current_state := Some T\<rparr>))))))
    \<and> (h_current_state h \<noteq> Some X \<longrightarrow>
         (\<exists>w' calls h'. hsm_change_state_internal fn hp X w = Some (w', calls)
             \<and> heap_get (hsms w') hp = Some h'
             \<and> h_current_state h' = Some X
             \<and> (case resolve h of
                  None \<Rightarrow> calls = []
                | Some (S, f, ud) \<Rightarrow>
                    (\<exists>ev wa. calls = [Invoke f hp S ev ud wa]
                       \<and> heap_get (events wa) ev = Some (synthesized HSM_EVT_EXIT (h_name h))))))"
proof (intro conjI allI impI)
  fix w0 :: world and h0 :: Hsm and ud :: gpointer
  assume l0: "heap_get (hsms w0) hp = Some h0"
  show "\<exists>w1. hsm_register_state (Some hp) (Some X) None ud w0 = Some w1
            \<and> heap_get (hsms w1) hp
                = Some (h0\<lparr>h_states := (h_states h0)
                          (X \<mapsto> \<lparr>st_name = Some X, st_handler = None, st_user_data = ud\<rparr>)\<rparr>)"
    using register_state_live[OF l0] heap_get_hsm_put[OF l0] by simp
next
  assume cur: "h_current_state h = Some X"
  show r: "resolve h = None" using cur reg null by (simp add: resolve_def)
  {
    fix ev :: nat and e :: HsmEvent
    assume a: "heap_get (events w) ev = Some e
                 \<and> (\<forall>pp. h_parent h = Some pp \<longrightarrow> heap_get (hsms w) pp \<noteq> None)"
    have run: "(False, w) = (case resolve h of
                               None \<Rightarrow> (False, w)
                             | Some (cs, f, ud) \<Rightarrow> fn f hp cs ev ud w)"
      by (simp add: r)
    have pl: "\<forall>pp. h_parent h = Some pp \<longrightarrow> heap_get (hsms w) pp \<noteq> None"
      using a by simp
    note b = bubble_step_result[OF conjunct1[OF a] pl, where fn = fn and n = n]
    have steps: "hsm_process_post fn (Suc n) \<lparr>p_h = hp, p_ev = ev\<rparr> w
        = bubble_step (g_main_context_invoke (hsm_callback fn (hsm_process_post fn n)) n) ev
            (h_parent h) w
          \<bind> (\<lambda>(w2, nested). Some (G_SOURCE_REMOVE, w2, nested))"
      using process_post_steps[where fn = fn and ev = ev and w = w and n = n, OF live run live]
      by (simp add: r)
    have "(case h_parent h of
                None \<Rightarrow>
                  (\<exists>w'. hsm_process_post fn (Suc n) \<lparr>p_h = hp, p_ev = ev\<rparr> w
                           = Some (G_SOURCE_REMOVE, w', [])
                     \<and> heap_get (events w') ev = None
                     \<and> glib w' = glib w)
              | Some pp \<Rightarrow>
                  (\<exists>copy pm wa. heap_get (hsms w) pp = Some pm
                     \<and> copy \<noteq> ev
                     \<and> wa = w\<lparr>events := events w @ [Some e]\<rparr>
                     \<and> heap_get (events wa) copy = Some e
                     \<and> (if g_runs_at_once (h_context pm) wa
                        then hsm_process_post fn (Suc n) \<lparr>p_h = hp, p_ev = ev\<rparr> w
                             = hsm_process_post fn n \<lparr>p_h = pp, p_ev = copy\<rparr>
                                 (g_enter (h_context pm) wa)
                               \<bind> (\<lambda>(r2, w2, nested).
                                     hsm_event_free (Some ev) (g_leave (h_context pm) wa w2)
                                     \<bind> (\<lambda>w3. Some (G_SOURCE_REMOVE, w3, nested)))
                        else (\<exists>w'. hsm_process_post fn (Suc n) \<lparr>p_h = hp, p_ev = ev\<rparr> w
                                      = Some (G_SOURCE_REMOVE, w', [])
                                \<and> heap_get (events w') ev = None
                                \<and> heap_get (events w') copy = Some e
                                \<and> glib w' = glib w @ [G_main_context_invoke (h_context pm)
                                                        (Hsm_process_post
                                                           \<lparr>p_h = pp, p_ev = copy\<rparr>)]))))"
    proof (cases "h_parent h")
      case None
      with b steps show ?thesis by auto
    next
      case (Some pp)
      with a obtain pm where pm: "heap_get (hsms w) pp = Some pm" by auto
      note e0 = conjunct1[OF a]
      let ?copy = "length (events w)"
      let ?wa = "w\<lparr>events := events w @ [Some e]\<rparr>"
      have ne: "?copy \<noteq> ev" using e0 by (auto simp: heap_get_def split: if_splits)
      have new: "heap_get (events ?wa) ?copy = Some e" by (simp add: heap_get_append_new)
      have st: "hsm_process_post fn (Suc n) \<lparr>p_h = hp, p_ev = ev\<rparr> w
        = bubble_step (g_main_context_invoke (hsm_callback fn (hsm_process_post fn n)) n) ev
            (Some pp) w
          \<bind> (\<lambda>(w2, nested). Some (G_SOURCE_REMOVE, w2, nested))"
        using steps Some by simp
      have e: "if g_runs_at_once (h_context pm) ?wa
                        then hsm_process_post fn (Suc n) \<lparr>p_h = hp, p_ev = ev\<rparr> w
                             = hsm_process_post fn n \<lparr>p_h = pp, p_ev = ?copy\<rparr>
                                 (g_enter (h_context pm) ?wa)
                               \<bind> (\<lambda>(r2, w2, nested).
                                     hsm_event_free (Some ev) (g_leave (h_context pm) ?wa w2)
                                     \<bind> (\<lambda>w3. Some (G_SOURCE_REMOVE, w3, nested)))
                        else (\<exists>w'. hsm_process_post fn (Suc n) \<lparr>p_h = hp, p_ev = ev\<rparr> w
                                      = Some (G_SOURCE_REMOVE, w', [])
                                \<and> heap_get (events w') ev = None
                                \<and> heap_get (events w') ?copy = Some e
                                \<and> glib w' = glib w @ [G_main_context_invoke (h_context pm)
                                                        (Hsm_process_post
                                                           \<lparr>p_h = pp, p_ev = ?copy\<rparr>)])"
      proof (cases "g_runs_at_once (h_context pm) ?wa")
        case True
        show ?thesis
          unfolding st bubble_step_at_once[OF e0 pm True] using True
          by (cases "hsm_process_post fn n \<lparr>p_h = pp, p_ev = ?copy\<rparr>
                       (g_enter (h_context pm) ?wa)")
             auto
      next
        case False
        from bubble_step_queued[OF e0 pm False, of "hsm_callback fn (hsm_process_post fn n)" n]
        show ?thesis unfolding st using False by auto
      qed
      show ?thesis
        apply (simp only: Some option.case)
        apply (rule_tac x = ?copy in exI)
        apply (rule_tac x = pm in exI)
        apply (rule_tac x = ?wa in exI)
        apply (intro conjI)
            apply (rule pm)
           apply (rule ne)
          apply (rule refl)
         apply (rule new)
        apply (rule e)
        done
    qed
  }
  then show "\<And>ev e. heap_get (events w) ev = Some e
                  \<and> (\<forall>pp. h_parent h = Some pp \<longrightarrow> heap_get (hsms w) pp \<noteq> None) \<Longrightarrow>
             (case h_parent h of
                None \<Rightarrow>
                  (\<exists>w'. hsm_process_post fn (Suc n) \<lparr>p_h = hp, p_ev = ev\<rparr> w
                           = Some (G_SOURCE_REMOVE, w', [])
                     \<and> heap_get (events w') ev = None
                     \<and> glib w' = glib w)
              | Some pp \<Rightarrow>
                  (\<exists>copy pm wa. heap_get (hsms w) pp = Some pm
                     \<and> copy \<noteq> ev
                     \<and> wa = w\<lparr>events := events w @ [Some e]\<rparr>
                     \<and> heap_get (events wa) copy = Some e
                     \<and> (if g_runs_at_once (h_context pm) wa
                        then hsm_process_post fn (Suc n) \<lparr>p_h = hp, p_ev = ev\<rparr> w
                             = hsm_process_post fn n \<lparr>p_h = pp, p_ev = copy\<rparr>
                                 (g_enter (h_context pm) wa)
                               \<bind> (\<lambda>(r2, w2, nested).
                                     hsm_event_free (Some ev) (g_leave (h_context pm) wa w2)
                                     \<bind> (\<lambda>w3. Some (G_SOURCE_REMOVE, w3, nested)))
                        else (\<exists>w'. hsm_process_post fn (Suc n) \<lparr>p_h = hp, p_ev = ev\<rparr> w
                                      = Some (G_SOURCE_REMOVE, w', [])
                                \<and> heap_get (events w') ev = None
                                \<and> heap_get (events w') copy = Some e
                                \<and> glib w' = glib w @ [G_main_context_invoke (h_context pm)
                                                        (Hsm_process_post
                                                           \<lparr>p_h = pp, p_ev = copy\<rparr>)]))))"
    by blast
  show "\<And>ev e r w' calls. heap_get (events w) ev = Some e
                  \<and> (\<forall>pp. h_parent h = Some pp \<longrightarrow> heap_get (hsms w) pp \<noteq> None) \<Longrightarrow>
          hsm_process_post fn (Suc n) \<lparr>p_h = hp, p_ev = ev\<rparr> w = Some (r, w', calls) \<Longrightarrow>
          r = G_SOURCE_REMOVE"
    by (rule process_post_removes)
  show "\<And>ev e r w' calls. heap_get (events w) ev = Some e
                  \<and> (\<forall>pp. h_parent h = Some pp \<longrightarrow> heap_get (hsms w) pp \<noteq> None) \<Longrightarrow>
          hsm_process_post fn (Suc n) \<lparr>p_h = hp, p_ev = ev\<rparr> w = Some (r, w', calls) \<Longrightarrow>
          heap_get (events w') ev = None"
    using process_post_frees[of fn "Suc n" "\<lparr>p_h = hp, p_ev = ev\<rparr>" w for ev] by auto
  fix T :: string
  assume ne: "T \<noteq> X"
  have ex: "exit_step fn hp h w = Some (w, [])"
    using cur reg null by (simp add: exit_step_def)
  let ?h2 = "h\<lparr>h_current_state := Some T\<rparr>"
  let ?w2 = "hsm_put hp ?h2 w"
  have live2: "heap_get (hsms ?w2) hp = Some ?h2" using live by (rule heap_get_hsm_put)
  have cur2: "h_current_state ?h2 = Some T" by simp
  from entry_step_result[OF live2 cur2 borrow, of "[]"]
  obtain entries w' where en: "entry_step fn hp ?h2 [] ?w2 = Some (w', [] @ entries)"
     "(case resolve ?h2 of
         None \<Rightarrow> entries = [] \<and> w' = ?w2
       | Some (S', f, ud) \<Rightarrow>
           (\<exists>ev wb. S' = T
             \<and> (ev, wb) = hsm_event_new HSM_EVT_ENTRY None None (h_name ?h2) 0 ?w2
             \<and> entries = [Invoke f hp T ev ud wb]
             \<and> heap_get (events wb) ev = Some (synthesized HSM_EVT_ENTRY (h_name ?h2))
             \<and> heap_get (hsms wb) hp = Some ?h2
             \<and> hsm_event_free (Some ev) (snd (fn f hp T ev ud wb)) = Some w'))" by blast
  have run: "hsm_change_state_internal fn hp T w = Some (w', entries)"
    using live cur ne ex en(1) by (simp add: change_state_internal_steps)
  from en(2) live2
  have "(case resolve ?h2 of
           None \<Rightarrow> entries = [] \<and> heap_get (hsms w') hp = Some ?h2
         | Some (S', f, ud) \<Rightarrow>
             (\<exists>ev wb. entries = [Invoke f hp T ev ud wb]
                \<and> heap_get (events wb) ev = Some (synthesized HSM_EVT_ENTRY (h_name h))
                \<and> heap_get (hsms wb) hp = Some ?h2))"
    by (auto split: option.splits)
  with run show "\<exists>w' calls. hsm_change_state_internal fn hp T w = Some (w', calls)
                 \<and> (case resolve ?h2 of
                      None \<Rightarrow> calls = [] \<and> heap_get (hsms w') hp = Some ?h2
                    | Some (S', f, ud) \<Rightarrow>
                        (\<exists>ev wb. calls = [Invoke f hp T ev ud wb]
                           \<and> heap_get (events wb) ev = Some (synthesized HSM_EVT_ENTRY (h_name h))
                           \<and> heap_get (hsms wb) hp = Some ?h2))"
    by blast
next
  assume ncur: "h_current_state h \<noteq> Some X"
  from exit_step_result[OF live borrow]
  obtain exits w1 h1 where ex: "exit_step fn hp h w = Some (w1, exits)"
     "(case resolve h of
         None \<Rightarrow> exits = [] \<and> w1 = w
       | Some (S, f, ud) \<Rightarrow>
           (\<exists>ev wa. h_current_state h = Some S
             \<and> (ev, wa) = hsm_event_new HSM_EVT_EXIT None None (h_name h) 0 w
             \<and> exits = [Invoke f hp S ev ud wa]
             \<and> heap_get (events wa) ev = Some (synthesized HSM_EVT_EXIT (h_name h))
             \<and> heap_get (hsms wa) hp = Some h
             \<and> hsm_event_free (Some ev) (snd (fn f hp S ev ud wa)) = Some w1))"
     "heap_get (hsms w1) hp = Some h1" by blast
  from exit_step_keeps_state[OF live keep ex(1,3)] reg
  have reg1: "h_states h1 X = Some st" by simp
  let ?h2 = "h1\<lparr>h_current_state := Some X\<rparr>"
  let ?w2 = "hsm_put hp ?h2 w1"
  have live2: "heap_get (hsms ?w2) hp = Some ?h2" using ex(3) by (rule heap_get_hsm_put)
  have en: "entry_step fn hp ?h2 exits ?w2 = Some (?w2, exits)"
    using reg1 null by (simp add: entry_step_def)
  have run: "hsm_change_state_internal fn hp X w = Some (?w2, exits)"
    using live ncur ex(1,3) en by (simp add: change_state_internal_steps)
  from ex(2)
  have "(case resolve h of
           None \<Rightarrow> exits = []
         | Some (S, f, ud) \<Rightarrow>
             (\<exists>ev wa. exits = [Invoke f hp S ev ud wa]
                \<and> heap_get (events wa) ev = Some (synthesized HSM_EVT_EXIT (h_name h))))"
    by (auto split: option.splits)
  with run live2
  show "\<exists>w' calls h'. hsm_change_state_internal fn hp X w = Some (w', calls)
             \<and> heap_get (hsms w') hp = Some h'
             \<and> h_current_state h' = Some X
             \<and> (case resolve h of
                  None \<Rightarrow> calls = []
                | Some (S, f, ud) \<Rightarrow>
                    (\<exists>ev wa. calls = [Invoke f hp S ev ud wa]
                       \<and> heap_get (events wa) ev = Some (synthesized HSM_EVT_EXIT (h_name h))))"
    by (intro exI[of _ ?w2] exI[of _ exits] exI[of _ ?h2]) simp
qed

lemma scenario_fn_keeps_state: "handlers_keep_state scenario_fn hp X"
  by (simp add: handlers_keep_state_def scenario_fn_def)

theorem null_handler_state_witness:
  "(\<exists>w' ev wa h'.
      hsm_change_state_internal scenario_fn 1 ''X'' scenario
        = Some (w', [Invoke 1 1 ''A'' ev None wa])
      \<and> heap_get (events wa) ev = Some (synthesized HSM_EVT_EXIT (Some ''child''))
      \<and> heap_get (hsms w') 1 = Some h'
      \<and> h_current_state h' = Some ''X'')
   \<and> (\<exists>w' copy.
        hsm_process_post scenario_fn (Suc 0) \<lparr>p_h = 1, p_ev = 0\<rparr> parked_scenario
          = Some (G_SOURCE_REMOVE, w', [])
        \<and> heap_get (events w') 0 = None
        \<and> heap_get (events w') copy = Some scenario_event
        \<and> glib w' = [G_main_context_invoke 1 (Hsm_process_post \<lparr>p_h = 0, p_ev = copy\<rparr>)])
   \<and> (\<exists>w' ev wb.
        hsm_change_state_internal scenario_fn 1 ''B'' parked_scenario
          = Some (w', [Invoke 2 1 ''B'' ev (Some 5) wb])
        \<and> heap_get (events wb) ev = Some (synthesized HSM_EVT_ENTRY (Some ''child'')))"
proof -
  let ?st = "\<lparr>st_name = Some ''X'', st_handler = None, st_user_data = None\<rparr>"
  let ?p = "child_machine\<lparr>h_current_state := Some ''X''\<rparr>"
  have l: "heap_get (hsms scenario) 1 = Some child_machine"
    by (simp add: scenario_def heap_get_def)
  have reg: "h_states child_machine ''X'' = Some ?st"
    by (simp add: child_machine_def)
  have null: "st_handler ?st = None" by simp
  have lp: "heap_get (hsms parked_scenario) 1 = Some ?p"
    by (simp add: parked_scenario_def heap_get_def)
  have regp: "h_states ?p ''X'' = Some ?st"
    by (simp add: child_machine_def)
  have n: "h_name child_machine = Some ''child''" by (simp add: child_machine_def)
  \<comment> \<open>into \<open>X\<close>\<close>
  have ncur: "h_current_state child_machine \<noteq> Some ''X''" by (simp add: child_machine_def)
  have r: "resolve child_machine = Some (''A'', 1, None)"
    by (simp add: resolve_def child_machine_def)
  note th0 = null_handler_state[OF l reg null scenario_fn_borrows scenario_fn_keeps_state,
                                where n = 0]
  note into = th0[THEN conjunct2, THEN conjunct2, THEN mp, OF ncur]
  from into have first: "\<exists>w' ev wa h'.
      hsm_change_state_internal scenario_fn 1 ''X'' scenario
        = Some (w', [Invoke 1 1 ''A'' ev None wa])
      \<and> heap_get (events wa) ev = Some (synthesized HSM_EVT_EXIT (Some ''child''))
      \<and> heap_get (hsms w') 1 = Some h'
      \<and> h_current_state h' = Some ''X''"
    unfolding r n by auto
  \<comment> \<open>while \<open>X\<close> is current\<close>
  have cur: "h_current_state ?p = Some ''X''" by simp
  have e0: "heap_get (events parked_scenario) 0 = Some scenario_event
              \<and> (\<forall>pp. h_parent ?p = Some pp \<longrightarrow> heap_get (hsms parked_scenario) pp \<noteq> None)"
    by (simp add: parked_scenario_def scenario_def heap_get_def child_machine_def)
  have par: "h_parent ?p = Some 0" by (simp add: child_machine_def)
  have l0: "heap_get (hsms parked_scenario) 0 = Some root_machine"
    by (simp add: parked_scenario_def heap_get_def)
  have g: "glib parked_scenario = []" by (simp add: parked_scenario_def scenario_def)
  have k: "h_context root_machine = 1" by (simp add: root_machine_def)
  have q: "\<not> g_runs_at_once 1
             (parked_scenario\<lparr>events := events parked_scenario @ [Some scenario_event]\<rparr>)"
    by (simp add: g_runs_at_once_def g_main_context_is_owner_def
        g_main_context_get_thread_default_def parked_scenario_def scenario_def)
  note th = null_handler_state[OF lp regp null scenario_fn_borrows scenario_fn_keeps_state,
                               where n = 0]
  note while = th[THEN conjunct2, THEN conjunct1, THEN mp, OF cur]
  note disp = while[THEN conjunct2, THEN conjunct1, THEN spec, THEN spec, THEN mp, OF e0]
  from disp have second: "\<exists>w' copy.
        hsm_process_post scenario_fn (Suc 0) \<lparr>p_h = 1, p_ev = 0\<rparr> parked_scenario
          = Some (G_SOURCE_REMOVE, w', [])
        \<and> heap_get (events w') 0 = None
        \<and> heap_get (events w') copy = Some scenario_event
        \<and> glib w' = [G_main_context_invoke 1 (Hsm_process_post \<lparr>p_h = 0, p_ev = copy\<rparr>)]"
    unfolding par using q by (auto simp: l0 g k)
  \<comment> \<open>out of \<open>X\<close>\<close>
  have rb: "resolve (?p\<lparr>h_current_state := Some ''B''\<rparr>) = Some (''B'', 2, Some 5)"
    by (simp add: resolve_def child_machine_def)
  have np: "h_name ?p = Some ''child''" by (simp add: child_machine_def)
  have neB: "''B'' \<noteq> ''X''" by simp
  note out = while[THEN conjunct2, THEN conjunct2, THEN spec, THEN mp, OF neB]
  from out have third: "\<exists>w' ev wb.
        hsm_change_state_internal scenario_fn 1 ''B'' parked_scenario
          = Some (w', [Invoke 2 1 ''B'' ev (Some 5) wb])
        \<and> heap_get (events wb) ev = Some (synthesized HSM_EVT_ENTRY (Some ''child''))"
    unfolding rb np by auto
  from first second third show ?thesis by blast
qed

subsection \<open>Null arguments\<close>

text \<open>
  C8. Every public operation called with a null machine returns at once, leaving the
  world as it was, and so do \<open>hsm_register_state\<close> and \<open>hsm_change_state\<close> called with a
  null state name, whatever the machine pointer: \<open>hsm_schedule_timer\<close> returns -1,
  \<open>hsm_cancel_timer\<close> returns false, \<open>hsm_get_state_copy\<close> returns the empty string,
  \<open>hsm_get_parent\<close> and \<open>hsm_get_name\<close> return \<open>NULL\<close>, and the operations without a result
  (register, change state, post, start, run, stop, set parent, destroy) invoke no
  handler and change nothing.
\<close>

theorem null_arguments_noop:
  "hsm_schedule_timer None ms w = Some (- 1, w)
   \<and> sint (- 1 :: gint) = - 1
   \<and> hsm_cancel_timer None tid w = Some (False, w)
   \<and> hsm_get_state_copy None w = Some ('''', w)
   \<and> hsm_get_parent None w = Some None
   \<and> hsm_get_name None w = Some None
   \<and> hsm_register_state None state_name handler ud w = Some w
   \<and> hsm_register_state h None handler ud w = Some w
   \<and> hsm_change_state fn n None new_state w = Some (w, [])
   \<and> hsm_change_state fn n h None w = Some (w, [])
   \<and> hsm_post_change_state fn n None new_state w = Some (w, [])
   \<and> hsm_post_change_state fn n h None w = Some (w, [])
   \<and> hsm_post_event fn n None ev w = Some (w, [])
   \<and> hsm_start None run_in_thread w = Some w
   \<and> hsm_run g_main_loop_run None w = Some w
   \<and> hsm_stop None w = Some w
   \<and> hsm_set_parent None parent w = Some w
   \<and> hsm_destroy None w = Some w"
  by (simp add: hsm_schedule_timer_def hsm_cancel_timer_def hsm_get_state_copy_def
      hsm_get_parent_def hsm_get_name_def hsm_register_state_def hsm_change_state_def
      hsm_post_change_state_def hsm_post_event_def hsm_start_def hsm_run_def hsm_stop_def
      hsm_set_parent_def hsm_destroy_def split: option.splits)

subsection \<open>The lock of the state snapshot\<close>

lemma get_state_copy_live:
  "heap_get (hsms w) hp = Some m \<Longrightarrow>
     hsm_get_state_copy (Some hp) w
       = Some ((case h_current_state m of Some cs \<Rightarrow> cs | None \<Rightarrow> ''''),
               w\<lparr>glib := glib w @ [G_mutex_lock hp, G_mutex_unlock hp]\<rparr>)"
  by (simp add: hsm_get_state_copy_def g_mutex_lock_def g_mutex_unlock_def)

text \<open>
  C6 does not hold of the code: \<open>hsm_get_state_copy\<close> reads \<open>current_state\<close> between
  \<open>g_mutex_lock\<close> and \<open>g_mutex_unlock\<close>, but the transition that frees and replaces
  \<open>current_state\<close> never takes the lock. In the scenario, the transition of the child
  from \<open>A\<close> to \<open>B\<close> commits \<open>B\<close> and has made no call to GLib at all, while the snapshot
  of the same machine makes the two mutex calls.
\<close>

theorem transition_commit_takes_no_lock:
  "(\<exists>w' calls h'. hsm_change_state_internal scenario_fn 1 ''B'' scenario = Some (w', calls)
       \<and> heap_get (hsms w') 1 = Some h'
       \<and> h_current_state h' = Some ''B''
       \<and> glib w' = [])
   \<and> hsm_get_state_copy (Some 1) scenario
        = Some (''A'', scenario\<lparr>glib := [G_mutex_lock 1, G_mutex_unlock 1]\<rparr>)"
proof -
  have l: "heap_get (hsms scenario) 1 = Some child_machine"
    by (simp add: scenario_def heap_get_def)
  have "hsm_get_state_copy (Some 1) scenario
        = Some (''A'', scenario\<lparr>glib := [G_mutex_lock 1, G_mutex_unlock 1]\<rparr>)"
    by (subst get_state_copy_live[OF l]) (simp add: child_machine_def scenario_def)
  moreover
  have "\<exists>w' calls h'. hsm_change_state_internal scenario_fn 1 ''B'' scenario = Some (w', calls)
       \<and> heap_get (hsms w') 1 = Some h'
       \<and> h_current_state h' = Some ''B''
       \<and> glib w' = []"
    by (simp add: hsm_eval)
  ultimately show ?thesis by simp
qed

end
